theory Spec2Isabelle
  imports Complex_Main "HOL-Library.Word"
begin

section \<open>JavaScript strings and numbers\<close>

text \<open>
  A JavaScript string is a sequence of 16-bit code units. \<open>str\<close> embeds an ASCII literal,
  so that \<open>str ''foo''\<close> is the JavaScript string \<^verbatim>\<open>'foo'\<close>.
\<close>

type_synonym jschar = "16 word"
type_synonym jsstring = "jschar list"

definition str :: "string \<Rightarrow> jsstring" where
  "str s = map (\<lambda>c. of_nat (of_char c)) s"

text \<open>The character U+2026 (horizontal ellipsis) of the template literal in \<open>limitString\<close>.\<close>

definition ellipsis :: jschar where
  "ellipsis = 0x2026"

text \<open>
  The built-in \<^verbatim>\<open>String.prototype.substring(start, end)\<close> of the language: both
  arguments are truncated towards zero (\<open>ToInteger\<close>), clamped to \<open>[0, length]\<close>, and
  swapped when out of order; an omitted \<open>end\<close> is the length. Numbers are modelled as
  rationals, which is exact for the integers and halves of integers that occur here.
\<close>

definition ToInteger :: "rat \<Rightarrow> int" where
  "ToInteger x = (if x < 0 then \<lceil>x\<rceil> else \<lfloor>x\<rfloor>)"

definition substring :: "jsstring \<Rightarrow> rat \<Rightarrow> rat option \<Rightarrow> jsstring" where
  "substring s start end =
     (let len = int (length s);
          intStart = ToInteger start;
          intEnd = (case end of None \<Rightarrow> len | Some e \<Rightarrow> ToInteger e);
          finalStart = min (max intStart 0) len;
          finalEnd = min (max intEnd 0) len;
          from = min finalStart finalEnd;
          to = max finalStart finalEnd
      in take (nat (to - from)) (drop (nat from) s))"

section \<open>The test runner package: \<open>limitString\<close>\<close>

text \<open>
  \<^verbatim>\<open>function limitString(str: string, length?: number = 20): string\<close>.
  The optional argument is \<open>None\<close> when omitted. \<^verbatim>\<open>length / 2\<close> is the division of
  numbers, not of integers: for an odd \<open>length\<close> it is a half, and only \<open>substring\<close>
  truncates it.
\<close>

definition limitString :: "jsstring \<Rightarrow> rat option \<Rightarrow> jsstring" where
  "limitString s length_arg =
     (let len = (case length_arg of None \<Rightarrow> 20 | Some l \<Rightarrow> l);
          strLength = of_nat (length s)
      in if strLength > len
         then substring s 0 (Some (len / 2)) @ [ellipsis]
              @ substring s (of_nat (length s) - len / 2) None
         else s)"

text \<open>
  The reading of the specification: both halves are \<open>length / 2\<close> truncated to an
  integer. Stated for a natural number \<open>length\<close>.
\<close>

definition limitString_spec :: "jsstring \<Rightarrow> nat \<Rightarrow> jsstring" where
  "limitString_spec s n =
     (if length s > n
      then take (n div 2) s @ [ellipsis] @ drop (length s - n div 2) s
      else s)"

section \<open>The test runner package: the registry of test runners\<close>

text \<open>
  The fields of \<open>Activation\<close> that \<open>addTestRunner\<close> reads and writes. A JavaScript
  \<open>Set\<close> keeps its elements in insertion order without duplicates: it is a list here,
  \<open>Set_has\<close>, \<open>Set_add\<close> and \<open>Set_delete\<close> being the three methods used. The controller
  is outside this file: its state is a type parameter and its method
  \<open>didUpdateTestRunners\<close> a parameter of the operations.
\<close>

definition Set_has :: "'a list \<Rightarrow> 'a \<Rightarrow> bool" where
  "Set_has xs x = (x \<in> set xs)"

definition Set_add :: "'a list \<Rightarrow> 'a \<Rightarrow> 'a list" where
  "Set_add xs x = (if x \<in> set xs then xs else xs @ [x])"

definition Set_delete :: "'a list \<Rightarrow> 'a \<Rightarrow> 'a list" where
  "Set_delete xs x = remove1 x xs"

record ('r, 'c) Activation =
  controller :: "'c option"
  testRunners :: "'r list"
  logged :: "'r list"

text \<open>
  The \<open>Disposable\<close> returned by \<open>addTestRunner\<close> closes over \<open>testRunner\<close>; \<open>dispose\<close>
  runs its callback on the activation.
\<close>

datatype 'r Disposable = Disposable 'r

definition notifyController :: "('c \<Rightarrow> 'c) \<Rightarrow> ('r, 'c) Activation \<Rightarrow> ('r, 'c) Activation" where
  "notifyController didUpdateTestRunners a =
     (case controller a of
        None \<Rightarrow> a
      | Some c \<Rightarrow> a\<lparr>controller := Some (didUpdateTestRunners c)\<rparr>)"

definition addTestRunner ::
  "('c \<Rightarrow> 'c) \<Rightarrow> 'r \<Rightarrow> ('r, 'c) Activation \<Rightarrow> 'r Disposable option \<times> ('r, 'c) Activation" where
  "addTestRunner didUpdateTestRunners testRunner a =
     (if Set_has (testRunners a) testRunner
      then (None, a\<lparr>logged := logged a @ [testRunner]\<rparr>)
      else (Some (Disposable testRunner),
            notifyController didUpdateTestRunners
              (a\<lparr>testRunners := Set_add (testRunners a) testRunner\<rparr>)))"

fun dispose ::
  "('c \<Rightarrow> 'c) \<Rightarrow> 'r Disposable \<Rightarrow> ('r, 'c) Activation \<Rightarrow> ('r, 'c) Activation" where
  "dispose didUpdateTestRunners (Disposable testRunner) a =
     notifyController didUpdateTestRunners
       (a\<lparr>testRunners := Set_delete (testRunners a) testRunner\<rparr>)"

section \<open>POSIX paths\<close>

text \<open>
  The functions of Node's \<open>path\<close> module that \<open>utils.js\<close> calls, in their POSIX flavour.
  They are library code, not part of the repository; the definitions follow the library's
  algorithms on \<open>/\<close>-separated paths.
\<close>

definition slash :: jschar where
  "slash = 0x2F"

definition dot :: jschar where
  "dot = 0x2E"

text \<open>The right-most component of a path, trailing separators ignored.\<close>

definition lastPart :: "jsstring \<Rightarrow> jsstring" where
  "lastPart p = rev (takeWhile (\<lambda>c. c \<noteq> slash) (dropWhile (\<lambda>c. c = slash) (rev p)))"

definition path_basename :: "jsstring \<Rightarrow> jsstring" where
  "path_basename p = lastPart p"

text \<open>
  \<open>path.extname\<close>: from the last dot of the last component to its end; empty when there is
  no dot, when the only dot is the component's first character, or when the component
  is \<open>..\<close>.
\<close>

definition path_extname :: "jsstring \<Rightarrow> jsstring" where
  "path_extname p =
     (let part = lastPart p;
          ext = rev (takeWhile (\<lambda>c. c \<noteq> dot) (rev part))
      in if dot \<notin> set part then []
         else if Suc (length ext) = length part then []
         else if part = [dot, dot] then []
         else dot # ext)"

text \<open>
  \<open>path.dirname\<close>: scanning from the end and never looking at index 0, skip the trailing
  separators and the last component; the path up to the separator found there is the
  directory.
\<close>

definition path_dirname :: "jsstring \<Rightarrow> jsstring" where
  "path_dirname p =
     (case p of
        [] \<Rightarrow> [dot]
      | c # body \<Rightarrow>
          (let r = dropWhile (\<lambda>x. x \<noteq> slash) (dropWhile (\<lambda>x. x = slash) (rev body))
           in if r = [] then (if c = slash then [slash] else [dot])
              else if c = slash \<and> tl r = [] then [slash, slash]
              else c # rev (tl r)))"

fun splitSlash :: "jsstring \<Rightarrow> jsstring list" where
  "splitSlash [] = [[]]"
| "splitSlash (c # cs) =
     (if c = slash then [] # splitSlash cs
      else (case splitSlash cs of
              [] \<Rightarrow> [[c]]
            | seg # segs \<Rightarrow> (c # seg) # segs))"

fun joinSlash :: "jsstring list \<Rightarrow> jsstring" where
  "joinSlash [] = []"
| "joinSlash [seg] = seg"
| "joinSlash (seg # segs) = seg @ slash # joinSlash segs"

text \<open>
  \<open>normalizeString\<close>: empty and \<open>.\<close> segments are dropped; \<open>..\<close> removes the segment
  before it, or is kept when there is none to remove and the path may rise above its
  start.
\<close>

definition normalizeStep :: "bool \<Rightarrow> jsstring list \<Rightarrow> jsstring \<Rightarrow> jsstring list" where
  "normalizeStep allowAboveRoot res seg =
     (if seg = [] \<or> seg = [dot] then res
      else if seg = [dot, dot] then
        (if res \<noteq> [] \<and> last res \<noteq> [dot, dot] then butlast res
         else if allowAboveRoot then res @ [[dot, dot]]
         else res)
      else res @ [seg])"

definition normalizeString :: "bool \<Rightarrow> jsstring \<Rightarrow> jsstring" where
  "normalizeString allowAboveRoot p =
     joinSlash (foldl (normalizeStep allowAboveRoot) [] (splitSlash p))"

definition path_normalize :: "jsstring \<Rightarrow> jsstring" where
  "path_normalize p =
     (if p = [] then [dot]
      else
        (let isAbsolute = (hd p = slash);
             trailingSeparator = (last p = slash);
             q = normalizeString (\<not> isAbsolute) p;
             q1 = (if q = [] \<and> \<not> isAbsolute then [dot] else q);
             q2 = (if q1 \<noteq> [] \<and> trailingSeparator then q1 @ [slash] else q1)
         in if isAbsolute then slash # q2 else q2))"

text \<open>\<open>path.join\<close> of two strings: the non-empty arguments joined by \<open>/\<close>, normalized.\<close>

definition path_join :: "jsstring \<Rightarrow> jsstring \<Rightarrow> jsstring" where
  "path_join a b =
     (let joined = joinSlash (filter (\<lambda>x. x \<noteq> []) [a, b])
      in if joined = [] then [dot] else path_normalize joined)"

text \<open>
  \<open>path.resolve\<close> of one path and \<open>path.relative\<close>. A relative argument is resolved against
  the working directory of the process, the parameter \<open>cwd\<close>.
\<close>

definition path_resolve :: "jsstring \<Rightarrow> jsstring \<Rightarrow> jsstring" where
  "path_resolve cwd p =
     (let full = (if p \<noteq> [] \<and> hd p = slash then p else cwd @ slash # p)
      in slash # normalizeString False full)"

fun commonPrefix :: "'a list \<Rightarrow> 'a list \<Rightarrow> nat" where
  "commonPrefix (x # xs) (y # ys) = (if x = y then Suc (commonPrefix xs ys) else 0)"
| "commonPrefix _ _ = 0"

definition path_relative :: "jsstring \<Rightarrow> jsstring \<Rightarrow> jsstring \<Rightarrow> jsstring" where
  "path_relative cwd from to =
     (let f = path_resolve cwd from;
          t = path_resolve cwd to
      in if f = t then []
         else
           (let fs = filter (\<lambda>x. x \<noteq> []) (splitSlash f);
                ts = filter (\<lambda>x. x \<noteq> []) (splitSlash t);
                n = commonPrefix fs ts
            in joinSlash (replicate (length fs - n) [dot, dot] @ drop n ts)))"

section \<open>Header and source files\<close>

definition HEADER_EXTENSIONS :: "jsstring list" where
  "HEADER_EXTENSIONS = [str ''.h'', str ''.hh'', str ''.hpp'', str ''.hxx'', str ''.h++'']"

definition SOURCE_EXTENSIONS :: "jsstring list" where
  "SOURCE_EXTENSIONS =
     [str ''.c'', str ''.cc'', str ''.cpp'', str ''.cxx'', str ''.c++'', str ''.m'', str ''.mm'']"

definition isHeaderFile :: "jsstring \<Rightarrow> bool" where
  "isHeaderFile filename = Set_has HEADER_EXTENSIONS (path_extname filename)"

definition isSourceFile :: "jsstring \<Rightarrow> bool" where
  "isSourceFile filename = Set_has SOURCE_EXTENSIONS (path_extname filename)"

section \<open>Regular expressions\<close>

text \<open>
  The fragment of the language's regular expressions that the include pattern uses, as a
  syntax tree: \<open>^\<close>, \<open>$\<close>, a literal character, \<open>.\<close>, \<open>\s\<close>, a character class,
  sequence, alternative, the greedy \<open>*\<close> and a numbered capture group.
\<close>

datatype regex =
    Bol
  | Eol
  | Chr jschar
  | AnyChar
  | WhiteSpace
  | OneOf "jschar list"
  | Empty
  | Seq regex regex
  | Alt regex regex
  | Star regex
  | Group nat regex

text \<open>The captures of a match in progress: for each group, the span it matched last.\<close>

type_synonym captures = "nat \<Rightarrow> (nat \<times> nat) option"

text \<open>\<open>.\<close> matches any code unit but a line terminator; \<open>\s\<close> matches white space and
  line terminators.\<close>

definition lineTerminators :: "jschar list" where
  "lineTerminators = [0x0A, 0x0D, 0x2028, 0x2029]"

definition whiteSpaces :: "jschar list" where
  "whiteSpaces =
     [0x09, 0x0A, 0x0B, 0x0C, 0x0D, 0x20, 0xA0, 0x1680,
      0x2000, 0x2001, 0x2002, 0x2003, 0x2004, 0x2005, 0x2006, 0x2007, 0x2008, 0x2009, 0x200A,
      0x2028, 0x2029, 0x202F, 0x205F, 0x3000, 0xFEFF]"

fun groups :: "regex \<Rightarrow> nat list" where
  "groups (Seq a b) = groups a @ groups b"
| "groups (Alt a b) = groups a @ groups b"
| "groups (Star r) = groups r"
| "groups (Group n r) = n # groups r"
| "groups _ = []"

definition clear :: "nat list \<Rightarrow> captures \<Rightarrow> captures" where
  "clear ns c = (\<lambda>n. if n \<in> set ns then None else c n)"

fun oneChar ::
  "jsstring \<Rightarrow> (jschar \<Rightarrow> bool) \<Rightarrow> nat \<times> captures \<Rightarrow> (nat \<times> captures) list" where
  "oneChar inp P (i, c) = (if i < length inp \<and> P (inp ! i) then [(Suc i, c)] else [])"

text \<open>
  The backtracking matcher. \<open>ms inp r (i, c)\<close> lists, in the order in which backtracking
  tries them, the states (end index, captures) in which \<open>r\<close> can finish when started at
  index \<open>i\<close> of \<open>inp\<close> with captures \<open>c\<close>: the left alternative comes before the right
  one, and one more iteration of a star before stopping. An iteration of a star starts
  with the captures of its body cleared, and an iteration that consumes nothing is
  rejected.
\<close>

function ms :: "jsstring \<Rightarrow> regex \<Rightarrow> nat \<times> captures \<Rightarrow> (nat \<times> captures) list" where
  "ms inp Bol (i, c) = (if i = 0 then [(i, c)] else [])"
| "ms inp Eol (i, c) = (if i = length inp then [(i, c)] else [])"
| "ms inp (Chr x) (i, c) = oneChar inp (\<lambda>y. y = x) (i, c)"
| "ms inp AnyChar (i, c) = oneChar inp (\<lambda>y. y \<notin> set lineTerminators) (i, c)"
| "ms inp WhiteSpace (i, c) = oneChar inp (\<lambda>y. y \<in> set whiteSpaces) (i, c)"
| "ms inp (OneOf xs) (i, c) = oneChar inp (\<lambda>y. y \<in> set xs) (i, c)"
| "ms inp Empty (i, c) = [(i, c)]"
| "ms inp (Seq a b) (i, c) = concat (map (ms inp b) (ms inp a (i, c)))"
| "ms inp (Alt a b) (i, c) = ms inp a (i, c) @ ms inp b (i, c)"
| "ms inp (Star r) (i, c) =
     concat (map (\<lambda>(j, c'). if i < j \<and> j \<le> length inp then ms inp (Star r) (j, c') else [])
                 (ms inp r (i, clear (groups r) c)))
     @ [(i, c)]"
| "ms inp (Group n r) (i, c) = map (\<lambda>(j, c'). (j, c'(n \<mapsto> (i, j)))) (ms inp r (i, c))"
  by pat_completeness auto
termination
  by (relation "measures [\<lambda>(inp, r, s). size r, \<lambda>(inp, r, (i, c)). length inp - i]") auto

text \<open>The equation of the star unfolds for ever; it is applied by hand.\<close>

declare ms.simps(10) [simp del]

text \<open>
  \<open>RegExp.prototype.exec\<close> of a pattern without flags: the first start index from 0 at
  which the pattern matches, and there the first way to match. The result maps 0 to the
  matched text and a group number to the text the group captured, \<open>None\<close> being
  \<open>undefined\<close>.
\<close>

type_synonym match = "nat \<Rightarrow> jsstring option"

definition exec :: "regex \<Rightarrow> jsstring \<Rightarrow> match option" where
  "exec r inp =
     (case concat (map (\<lambda>i. map (Pair i) (ms inp r (i, \<lambda>n. None))) [0..<Suc (length inp)]) of
        [] \<Rightarrow> None
      | (i, j, c) # rest \<Rightarrow>
          Some (\<lambda>n. map_option (\<lambda>(a, b). take (b - a) (drop a inp)) ((c(0 \<mapsto> (i, j))) n)))"

section \<open>The include search of \<open>nuclide-clang\<close>\<close>

datatype js_error = TypeError | Error jsstring

definition indexOf :: "jsstring \<Rightarrow> jschar \<Rightarrow> nat option" where
  "indexOf s x = (if x \<in> set s then Some (length (takeWhile (\<lambda>c. c \<noteq> x) s)) else None)"

text \<open>
  \<open>processGrepResult\<close>. \<open>None\<close> is \<open>null\<close>. \<open>path.join\<close> throws a \<open>TypeError\<close> for an
  argument that is not a string, which \<open>match[1]\<close> is when group 1 took no part in the
  match. \<open>result.substr(0, splitIndex)\<close> and \<open>result.substr(splitIndex + 1)\<close> are the
  text before and after the separator.
\<close>

definition processGrepResult ::
  "jsstring \<Rightarrow> jsstring \<Rightarrow> regex \<Rightarrow> js_error + jsstring option" where
  "processGrepResult result headerFile includeRegex =
     (case indexOf result 0 of
        None \<Rightarrow> Inr None
      | Some splitIndex \<Rightarrow>
          (let filename = take splitIndex result
           in if \<not> isSourceFile filename then Inr None
              else
                (case exec includeRegex (drop (Suc splitIndex) result) of
                   None \<Rightarrow> Inr None
                 | Some match \<Rightarrow>
                     (if match 2 \<noteq> None then
                        (case match 1 of
                           None \<Rightarrow> Inl TypeError
                         | Some include \<Rightarrow>
                             (let includePath =
                                    path_normalize (path_join (path_dirname filename) include)
                              in if includePath \<noteq> headerFile then Inr None
                                 else Inr (Some filename)))
                      else Inr (Some filename)))))"

text \<open>
  The pattern
  \<^verbatim>\<open>^\s*#include\s+["<](${relativePath}|(../)*${basename})[">]\s*$\<close>.
  Both interpolated strings went through \<open>escapeStringRegExp\<close>, so each matches itself
  character by character (\<open>lit\<close>); the two dots of \<open>(../)*\<close> are written in the pattern
  as they are, and are the metacharacter.
\<close>

definition lit :: "jsstring \<Rightarrow> regex" where
  "lit s = foldr (\<lambda>c r. Seq (Chr c) r) s Empty"

definition dquote :: jschar where
  "dquote = 0x22"

definition includePattern :: "jsstring \<Rightarrow> jsstring \<Rightarrow> regex" where
  "includePattern relativePath basename =
     Seq Bol (Seq (Star WhiteSpace) (Seq (lit (str ''#include''))
       (Seq (Seq WhiteSpace (Star WhiteSpace)) (Seq (OneOf [dquote, 0x3C])
         (Seq (Group 1 (Alt (lit relativePath)
                            (Seq (Star (Group 2 (Seq AnyChar (Seq AnyChar (Chr slash)))))
                                 (lit basename))))
           (Seq (OneOf [dquote, 0x3E]) (Seq (Star WhiteSpace) Eol)))))))"

definition includeRegex :: "jsstring \<Rightarrow> jsstring \<Rightarrow> jsstring \<Rightarrow> regex" where
  "includeRegex cwd headerFile projectRoot =
     includePattern (path_relative cwd projectRoot headerFile) (path_basename headerFile)"

text \<open>
  Modelled from the spec: the events of \<open>observeProcess\<close>, whose declaration is not among
  the sources: \<open>{kind: stdout, data} | {kind: stderr, data} | {kind: error, error} |
  {kind: exit, code}\<close>.
\<close>

datatype ProcessMessage =
    Stdout jsstring
  | Stderr jsstring
  | ErrorMsg jsstring
  | Exit int

text \<open>
  An observable, as far as an observer can tell: the values it emits, in order, and how
  it ends: it completes, fails with an error, or stays open for ever (\<open>Pending\<close>).
\<close>

datatype ending = Completed | Failed js_error | Pending

type_synonym 'a observable = "'a list \<times> ending"

text \<open>
  \<open>flatMap\<close> with a projection whose inner observables are synchronous:
  \<open>Observable.empty()\<close> is \<open>Inr []\<close>, \<open>Observable.of(x)\<close> is \<open>Inr [x]\<close>, and a
  projection that throws is \<open>Inl\<close>, which fails the resulting observable at that point.
\<close>

fun flatMap :: "('a \<Rightarrow> js_error + 'b list) \<Rightarrow> 'a observable \<Rightarrow> 'b observable" where
  "flatMap project ([], e) = ([], e)"
| "flatMap project (x # xs, e) =
     (case project x of
        Inl err \<Rightarrow> ([], Failed err)
      | Inr ys \<Rightarrow> (case flatMap project (xs, e) of (zs, e') \<Rightarrow> (ys @ zs, e')))"

text \<open>\<open>take(count)\<close>: the first \<open>count\<close> values, completing with the last of them.\<close>

definition take_obs :: "nat \<Rightarrow> 'a observable \<Rightarrow> 'a observable" where
  "take_obs count obs =
     (case obs of (xs, e) \<Rightarrow> if count \<le> length xs then (take count xs, Completed) else (xs, e))"

text \<open>
  The function given to \<open>flatMap\<close> in \<open>findIncludingSourceFile\<close>. A search result is a
  \<open>jsstring option\<close>: \<open>Some file\<close> is the spec's \<open>Found(file)\<close>, \<open>None\<close> (the emitted
  \<open>null\<close>) its \<open>NotFound\<close>.
\<close>

definition onMessage ::
  "jsstring \<Rightarrow> regex \<Rightarrow> ProcessMessage \<Rightarrow> js_error + jsstring option list" where
  "onMessage headerFile regex message =
     (case message of
        Stdout data \<Rightarrow>
          (case processGrepResult data headerFile regex of
             Inl err \<Rightarrow> Inl err
           | Inr None \<Rightarrow> Inr []
           | Inr (Some file) \<Rightarrow> Inr [Some file])
      | ErrorMsg err \<Rightarrow> Inl (Error err)
      | Exit code \<Rightarrow> Inr [None]
      | Stderr data \<Rightarrow> Inr [])"

text \<open>
  \<open>findIncludingSourceFile\<close>. Its last argument is the observable that
  \<open>observeProcess(spawnGrepProcess)\<close> returns: the messages of the search process.
\<close>

definition findIncludingSourceFile ::
  "jsstring \<Rightarrow> jsstring \<Rightarrow> jsstring \<Rightarrow> ProcessMessage observable \<Rightarrow> jsstring option observable"
  where
  "findIncludingSourceFile cwd headerFile projectRoot messages =
     take_obs 1
       (flatMap (onMessage headerFile (includeRegex cwd headerFile projectRoot)) messages)"

text \<open>
  A line of \<open>grep --null\<close> output for a match in \<open>file\<close>, and the text of a line
  \<^verbatim>\<open>#include "h"\<close>.
\<close>

definition grepLine :: "jsstring \<Rightarrow> jsstring \<Rightarrow> jsstring" where
  "grepLine file text = file @ 0 # text"

definition includeLine :: "jsstring \<Rightarrow> jsstring" where
  "includeLine h = str ''#include '' @ dquote # h @ [dquote]"

text \<open>
  The two captures the search looks at, \<open>match[1]\<close> and \<open>match[2]\<close>, of the result of
  \<open>exec\<close>.
\<close>

definition captured :: "match option \<Rightarrow> (jsstring option \<times> jsstring option) option" where
  "captured r = map_option (\<lambda>m. (m 1, m 2)) r"

text \<open>
  What one iteration of \<open>(../)*\<close> accepts: three characters, the first two not line
  terminators, the third a slash; and the same three characters at index \<open>i\<close> of an
  input.
\<close>

definition validSegment :: "jsstring \<Rightarrow> bool" where
  "validSegment seg \<longleftrightarrow>
     length seg = 3 \<and> seg ! 0 \<notin> set lineTerminators \<and> seg ! 1 \<notin> set lineTerminators
     \<and> seg ! 2 = slash"

definition segmentAt :: "jsstring \<Rightarrow> nat \<Rightarrow> bool" where
  "segmentAt inp i \<longleftrightarrow>
     i + 2 < length inp \<and> inp ! i \<notin> set lineTerminators
     \<and> inp ! (i + 1) \<notin> set lineTerminators \<and> inp ! (i + 2) = slash"

text \<open>The parts of the include pattern, named for the proofs.\<close>

definition segmentRegex :: regex where
  "segmentRegex = Group 2 (Seq AnyChar (Seq AnyChar (Chr slash)))"

definition tailRegex :: regex where
  "tailRegex = Seq (OneOf [dquote, 0x3E]) (Seq (Star WhiteSpace) Eol)"

definition pathRegex :: "jsstring \<Rightarrow> jsstring \<Rightarrow> regex" where
  "pathRegex rel base = Group 1 (Alt (lit rel) (Seq (Star segmentRegex) (lit base)))"

section \<open>Properties of \<open>limitString\<close>\<close>

lemma floor_half: "\<lfloor>(of_nat n :: rat) / 2\<rfloor> = int (n div 2)"
proof -
  have "\<lfloor>(of_int (int n) :: rat) / of_int 2\<rfloor> = int n div 2"
    by (rule floor_divide_of_int_eq)
  then show ?thesis by simp
qed

lemma floor_minus_half:
  "\<lfloor>(of_nat m :: rat) - of_nat n / 2\<rfloor> = int m - int ((n + 1) div 2)"
proof -
  have "(of_nat m :: rat) - of_nat n / 2 = of_int (2 * int m - int n) / of_int 2"
    by (simp add: field_simps)
  then have "\<lfloor>(of_nat m :: rat) - of_nat n / 2\<rfloor> = (2 * int m - int n) div 2"
    by (simp only: floor_divide_of_int_eq)
  also have "\<dots> = int m - int ((n + 1) div 2)"
    by linarith
  finally show ?thesis .
qed

lemma substring_prefix:
  assumes "n < length s"
  shows "substring s 0 (Some (of_nat n / 2)) = take (n div 2) s"
proof -
  have "ToInteger (of_nat n / 2) = int (n div 2)"
    by (simp add: ToInteger_def floor_half)
  moreover have "ToInteger 0 = 0"
    by (simp add: ToInteger_def)
  moreover have "n div 2 \<le> length s"
    using assms by linarith
  ultimately show ?thesis
    by (simp add: substring_def Let_def min_def max_def)
qed

lemma substring_suffix:
  assumes "n < length s"
  shows "substring s (of_nat (length s) - of_nat n / 2) None
         = drop (length s - (n + 1) div 2) s"
proof -
  have pos: "\<not> (of_nat (length s) - (of_nat n :: rat) / 2 < 0)"
  proof -
    have "(of_nat n :: rat) / 2 \<le> of_nat n" by simp
    also have "\<dots> \<le> of_nat (length s)" using assms by simp
    finally show ?thesis by simp
  qed
  have "ToInteger (of_nat (length s) - of_nat n / 2) = int (length s) - int ((n + 1) div 2)"
    using pos by (simp only: ToInteger_def floor_minus_half if_False)
  moreover have "(n + 1) div 2 \<le> length s"
    using assms by linarith
  ultimately show ?thesis
    by (simp add: substring_def Let_def min_def max_def nat_diff_distrib')
qed

text \<open>
  C6, as the specification states it, fails for an odd \<open>length\<close>: the second half is the
  last \<open>length / 2\<close> characters rounded up, not truncated. For \<open>length = 5\<close> the code
  returns the last three characters of an eight-character string, the specification's
  reading the last two.
\<close>

theorem limitString_odd_length_counterexample:
  "limitString (str ''abcdefgh'') (Some 5) = str ''ab'' @ [ellipsis] @ str ''fgh''
   \<and> limitString_spec (str ''abcdefgh'') 5 = str ''ab'' @ [ellipsis] @ str ''gh''
   \<and> limitString (str ''abcdefgh'') (Some 5) \<noteq> limitString_spec (str ''abcdefgh'') 5"
  by code_simp

text \<open>
  C6, amended: for a natural number \<open>length\<close> (20 when omitted), a string longer than
  \<open>length\<close> becomes its first \<open>length div 2\<close> characters, the ellipsis and its last
  \<open>(length + 1) div 2\<close> characters, \<open>length + 1\<close> characters in all; a string that is
  not longer is returned unchanged. \<open>limitString("foobar", 4)\<close> is \<open>fo\<dots>ar\<close> and
  \<open>limitString("hi", 20)\<close> is \<open>hi\<close>.
\<close>

theorem limitString_halves:
  "limitString s (Some (of_nat n)) =
     (if n < length s
      then take (n div 2) s @ [ellipsis] @ drop (length s - (n + 1) div 2) s
      else s)
   \<and> (if n < length s then length (limitString s (Some (of_nat n))) = n + 1
       else limitString s (Some (of_nat n)) = s)
   \<and> limitString s None = limitString s (Some 20)
   \<and> limitString (str ''foobar'') (Some 4) = str ''fo'' @ [ellipsis] @ str ''ar''
   \<and> limitString (str ''hi'') (Some 20) = str ''hi''"
proof -
  have general: "limitString s (Some (of_nat n)) =
     (if n < length s
      then take (n div 2) s @ [ellipsis] @ drop (length s - (n + 1) div 2) s
      else s)"
    by (simp add: limitString_def Let_def substring_prefix substring_suffix)
  have len: "n < length s \<Longrightarrow> length (limitString s (Some (of_nat n))) = n + 1"
  proof -
    assume less: "n < length s"
    then have "n div 2 \<le> length s" and "(n + 1) div 2 \<le> length s"
      by linarith+
    then show ?thesis
      using less by (simp add: general min_def) linarith
  qed
  have default: "limitString s None = limitString s (Some 20)"
    by (simp add: limitString_def)
  have foobar: "limitString (str ''foobar'') (Some 4) = str ''fo'' @ [ellipsis] @ str ''ar''"
    by code_simp
  have hi: "limitString (str ''hi'') (Some 20) = str ''hi''"
    by code_simp
  show ?thesis
    using general len default foobar hi by simp
qed

section \<open>Properties of the file classification\<close>

text \<open>
  C7: \<open>isHeaderFile\<close> holds exactly when \<open>path.extname\<close> of the file name is one of
  \<open>.h .hh .hpp .hxx .h++\<close>, and \<open>isSourceFile\<close> exactly when it is one of
  \<open>.c .cc .cpp .cxx .c++ .m .mm\<close>.
\<close>

theorem extension_classification:
  "(isHeaderFile h \<longleftrightarrow>
      path_extname h \<in> {str ''.h'', str ''.hh'', str ''.hpp'', str ''.hxx'', str ''.h++''})
   \<and> (isSourceFile f \<longleftrightarrow>
      path_extname f \<in> {str ''.c'', str ''.cc'', str ''.cpp'', str ''.cxx'', str ''.c++'',
                         str ''.m'', str ''.mm''})"
  by (simp add: isHeaderFile_def isSourceFile_def Set_has_def HEADER_EXTENSIONS_def
      SOURCE_EXTENSIONS_def)

section \<open>Properties of the registry of test runners\<close>

lemma testRunners_notifyController [simp]:
  "testRunners (notifyController u a) = testRunners a"
  by (simp add: notifyController_def split: option.split)

text \<open>
  C10: adding a test runner that is already registered returns nothing and leaves the
  registered set as it was; adding a new one registers it and returns a disposable whose
  disposal restores the registered set of before the call, and which, disposed of in any
  later state, removes that test runner and no other.
\<close>

theorem addTestRunner_round_trip:
  "(Set_has (testRunners a) t \<longrightarrow>
      fst (addTestRunner u t a) = None
      \<and> testRunners (snd (addTestRunner u t a)) = testRunners a)
   \<and> (\<not> Set_has (testRunners a) t \<longrightarrow>
      fst (addTestRunner u t a) = Some (Disposable t)
      \<and> set (testRunners (snd (addTestRunner u t a))) = insert t (set (testRunners a))
      \<and> testRunners (dispose u (Disposable t) (snd (addTestRunner u t a))) = testRunners a)
   \<and> (distinct (testRunners b) \<longrightarrow>
      set (testRunners (dispose u (Disposable t) b)) = set (testRunners b) - {t})"
  by (simp add: addTestRunner_def Set_has_def Set_add_def Set_delete_def remove1_append)

theorem addTestRunner_round_trip_witness:
  "Set_has (testRunners \<lparr>controller = Some (0::nat), testRunners = [1::nat, 2], logged = []\<rparr>) 2
   \<and> \<not> Set_has (testRunners \<lparr>controller = Some (0::nat), testRunners = [1::nat, 2], logged = []\<rparr>) 3
   \<and> distinct (testRunners \<lparr>controller = Some (0::nat), testRunners = [3::nat, 1, 2], logged = []\<rparr>)
   \<and> addTestRunner Suc 2 \<lparr>controller = Some (0::nat), testRunners = [1::nat, 2], logged = []\<rparr>
       = (None, \<lparr>controller = Some 0, testRunners = [1, 2], logged = [2]\<rparr>)
   \<and> addTestRunner Suc 3 \<lparr>controller = Some (0::nat), testRunners = [1::nat, 2], logged = []\<rparr>
       = (Some (Disposable 3), \<lparr>controller = Some 1, testRunners = [1, 2, 3], logged = []\<rparr>)
   \<and> dispose Suc (Disposable 3) \<lparr>controller = Some (1::nat), testRunners = [1::nat, 2, 3], logged = []\<rparr>
       = \<lparr>controller = Some 2, testRunners = [1, 2], logged = []\<rparr>
   \<and> set (testRunners (dispose Suc (Disposable 3)
         \<lparr>controller = Some (0::nat), testRunners = [3::nat, 1, 2], logged = []\<rparr>)) = {1, 2}"
  using addTestRunner_round_trip [of "\<lparr>controller = Some (0::nat), testRunners = [1::nat, 2], logged = []\<rparr>" 2 Suc
          "\<lparr>controller = Some (0::nat), testRunners = [3::nat, 1, 2], logged = []\<rparr>"]
        addTestRunner_round_trip [of "\<lparr>controller = Some (0::nat), testRunners = [1::nat, 2], logged = []\<rparr>" 3 Suc
          "\<lparr>controller = Some (0::nat), testRunners = [3::nat, 1, 2], logged = []\<rparr>"]
  by (simp add: addTestRunner_def Set_has_def Set_add_def Set_delete_def notifyController_def)

section \<open>Properties of the include search\<close>

subsection \<open>Splitting a line and running the stream\<close>

lemma indexOf_grepLine:
  assumes "0 \<notin> set file"
  shows "indexOf (grepLine file text) 0 = Some (length file)"
proof -
  have "\<And>x. x \<in> set file \<Longrightarrow> x \<noteq> 0"
    using assms by auto
  then have "takeWhile (\<lambda>c. c \<noteq> 0) (file @ 0 # text) = file"
    by (simp add: takeWhile_append2)
  then show ?thesis
    by (simp add: indexOf_def grepLine_def)
qed

lemma indexOf_None: "0 \<notin> set line \<Longrightarrow> indexOf line 0 = None"
  by (simp add: indexOf_def)


lemma processGrepResult_no_separator:
  "0 \<notin> set line \<Longrightarrow> processGrepResult line headerFile regex = Inr None"
  by (simp add: processGrepResult_def indexOf_None)

lemma processGrepResult_grepLine:
  assumes "0 \<notin> set file"
  shows "processGrepResult (grepLine file text) headerFile regex =
     (if \<not> isSourceFile file then Inr None
      else case exec regex text of
             None \<Rightarrow> Inr None
           | Some match \<Rightarrow>
               if match 2 \<noteq> None then
                 (case match 1 of
                    None \<Rightarrow> Inl TypeError
                  | Some include \<Rightarrow>
                      if path_normalize (path_join (path_dirname file) include) \<noteq> headerFile
                      then Inr None else Inr (Some file))
               else Inr (Some file))"
proof -
  have tk: "take (length file) (grepLine file text) = file"
    and dk: "drop (Suc (length file)) (grepLine file text) = text"
    by (simp_all add: grepLine_def)
  show ?thesis
    unfolding processGrepResult_def Let_def indexOf_grepLine [OF assms] option.case tk dk
    by (rule refl)
qed


lemma flatMap_skip:
  "\<forall>m\<in>set pre. f m = Inr [] \<Longrightarrow> flatMap f (pre @ rest, e) = flatMap f (rest, e)"
  by (induction pre) (auto split: prod.splits)

lemma flatMap_remove:
  "f x = Inr [] \<Longrightarrow> flatMap f (pre @ x # rest, e) = flatMap f (pre @ rest, e)"
  by (induction pre) (auto split: prod.splits sum.splits)



lemma take_obs_length: "length (fst (take_obs n obs)) \<le> n"
  by (cases obs) (simp add: take_obs_def)


lemma flatMap_first:
  assumes "\<forall>m\<in>set pre. f m = Inr []" and "f x = Inr [v]"
  shows "take_obs 1 (flatMap f (pre @ x # rest, e)) = ([v], Completed)"
  using assms by (cases "flatMap f (rest, e)") (simp add: flatMap_skip take_obs_def)

lemma flatMap_throw:
  assumes "\<forall>m\<in>set pre. f m = Inr []" and "f x = Inl err"
  shows "take_obs 1 (flatMap f (pre @ x # rest, e)) = ([], Failed err)"
  using assms by (simp add: flatMap_skip take_obs_def)

lemma flatMap_all_skipped:
  assumes "\<forall>m\<in>set pre. f m = Inr []"
  shows "take_obs 1 (flatMap f (pre, e)) = ([], e)"
  using flatMap_skip [OF assms, of "[]" e] by (simp add: take_obs_def)





subsection \<open>The matcher on the include pattern\<close>

lemma clear_nil [simp]: "clear [] c = c"
  by (simp add: clear_def)

lemma clear_upd [simp]: "(clear [n] c)(n \<mapsto> v) = c(n \<mapsto> v)"
  by (rule ext) (simp add: clear_def)

lemma concat_map_nil: "(\<And>x. x \<in> set xs \<Longrightarrow> f x = []) \<Longrightarrow> concat (map f xs) = []"
  by (induction xs) simp_all

lemma take_Suc_drop:
  "take (Suc n) (drop i inp) = x # s \<longleftrightarrow> i < length inp \<and> inp ! i = x \<and> take n (drop (Suc i) inp) = s"
proof (cases "i < length inp")
  case True
  then have "drop i inp = inp ! i # drop (Suc i) inp"
    by (simp add: Cons_nth_drop_Suc)
  with True show ?thesis by simp
next
  case False
  then show ?thesis by simp
qed

lemma ms_lit:
  "ms inp (lit s) (i, c) = (if take (length s) (drop i inp) = s then [(i + length s, c)] else [])"
proof (induction s arbitrary: i)
  case Nil
  show ?case by (simp add: lit_def)
next
  case (Cons x s)
  have "lit (x # s) = Seq (Chr x) (lit s)"
    by (simp add: lit_def)
  then show ?case
    using Cons [of "Suc i"] by (simp add: take_Suc_drop)
qed

lemma star_ws_unfold:
  "ms inp (Star WhiteSpace) (i, c) =
     (if i < length inp \<and> inp ! i \<in> set whiteSpaces then ms inp (Star WhiteSpace) (Suc i, c) else [])
     @ [(i, c)]"
  by (subst ms.simps(10)) auto

lemma star_ws_span:
  "(j, c') \<in> set (ms inp (Star WhiteSpace) (i, c)) \<Longrightarrow>
     c' = c \<and> i \<le> j \<and> (\<forall>t. i \<le> t \<and> t < j \<longrightarrow> inp ! t \<in> set whiteSpaces)"
proof (induction "length inp - i" arbitrary: i rule: less_induct)
  case less
  show ?case
  proof (cases "i < length inp \<and> inp ! i \<in> set whiteSpaces")
    case False
    then have "ms inp (Star WhiteSpace) (i, c) = [(i, c)]"
      by (subst star_ws_unfold) (simp only: if_False append_Nil)
    with less.prems have "j = i" and "c' = c"
      by simp_all
    then show ?thesis
      by auto
  next
    case True
    then have lt: "length inp - Suc i < length inp - i"
      by linarith
    from True have "ms inp (Star WhiteSpace) (i, c) = ms inp (Star WhiteSpace) (Suc i, c) @ [(i, c)]"
      by (subst star_ws_unfold) (simp only: simp_thms if_True)
    with less.prems
    have "(j, c') \<in> set (ms inp (Star WhiteSpace) (Suc i, c)) \<or> (j, c') = (i, c)"
      by auto
    then show ?thesis
    proof
      assume "(j, c') = (i, c)"
      then show ?thesis by auto
    next
      assume "(j, c') \<in> set (ms inp (Star WhiteSpace) (Suc i, c))"
      from less.hyps [OF lt this] have "c' = c" and "Suc i \<le> j"
        and ws: "\<forall>t. Suc i \<le> t \<and> t < j \<longrightarrow> inp ! t \<in> set whiteSpaces"
        by simp_all
      moreover have "inp ! t \<in> set whiteSpaces" if "i \<le> t" "t < j" for t
        using that ws True by (cases "t = i") auto
      ultimately show ?thesis by simp
    qed
  qed
qed

lemma ms_segment:
  "ms inp segmentRegex (i, c) = (if segmentAt inp i then [(i + 3, c(2 \<mapsto> (i, i + 3)))] else [])"
  by (auto simp: segmentRegex_def segmentAt_def numeral_3_eq_3)

lemma groups_segment [simp]: "groups segmentRegex = [2]"
  by (simp add: segmentRegex_def)

lemma star_segment_unfold:
  "ms inp (Star segmentRegex) (i, c) =
     (if segmentAt inp i then ms inp (Star segmentRegex) (i + 3, c(2 \<mapsto> (i, i + 3))) else [])
     @ [(i, c)]"
proof (cases "segmentAt inp i")
  case True
  then have "i + 3 \<le> length inp"
    by (simp add: segmentAt_def)
  with True show ?thesis
    by (subst ms.simps(10)) (simp add: ms_segment)
next
  case False
  then show ?thesis
    by (subst ms.simps(10)) (simp add: ms_segment)
qed

lemma star_segment_member:
  "(j, c') \<in> set (ms inp (Star segmentRegex) (i, c)) \<Longrightarrow>
     (j = i \<and> c' = c) \<or> (i < j \<and> c' 2 \<noteq> None \<and> c' 1 = c 1)"
proof (induction "length inp - i" arbitrary: i c rule: less_induct)
  case less
  show ?case
  proof (cases "segmentAt inp i")
    case False
    then have "ms inp (Star segmentRegex) (i, c) = [(i, c)]"
      by (subst star_segment_unfold) simp
    with less.prems show ?thesis
      by simp
  next
    case True
    then have lt: "length inp - (i + 3) < length inp - i"
      unfolding segmentAt_def by linarith
    from True have "ms inp (Star segmentRegex) (i, c)
        = ms inp (Star segmentRegex) (i + 3, c(2 \<mapsto> (i, i + 3))) @ [(i, c)]"
      by (subst star_segment_unfold) simp
    with less.prems
    have "(j, c') \<in> set (ms inp (Star segmentRegex) (i + 3, c(2 \<mapsto> (i, i + 3)))) \<or> (j, c') = (i, c)"
      by auto
    then show ?thesis
    proof
      assume "(j, c') = (i, c)"
      then show ?thesis by simp
    next
      assume "(j, c') \<in> set (ms inp (Star segmentRegex) (i + 3, c(2 \<mapsto> (i, i + 3))))"
      from less.hyps [OF lt this] show ?thesis
        by auto
    qed
  qed
qed

lemma star_segment_head:
  assumes "\<forall>t<k. segmentAt inp (p + 3 * t)" and "\<not> segmentAt inp (p + 3 * k)"
  shows "\<exists>rest c'. ms inp (Star segmentRegex) (p, c) = (p + 3 * k, c') # rest
           \<and> c' 1 = c 1 \<and> (c' 2 = None \<longleftrightarrow> k = 0 \<and> c 2 = None)"
  using assms
proof (induction k arbitrary: p c)
  case 0
  then show ?case
    by (subst star_segment_unfold) simp
next
  case (Suc k)
  from Suc.prems(1) have here: "segmentAt inp p"
    by (metis add.right_neutral mult_zero_right zero_less_Suc)
  have A: "\<forall>t<k. segmentAt inp (p + 3 + 3 * t)"
  proof (intro allI impI)
    fix t assume "t < k"
    then have "Suc t < Suc k"
      by simp
    with Suc.prems(1) have "segmentAt inp (p + 3 * Suc t)"
      by blast
    then show "segmentAt inp (p + 3 + 3 * t)"
      by (simp add: add.assoc)
  qed
  have B: "\<not> segmentAt inp (p + 3 + 3 * k)"
    using Suc.prems(2) by (simp add: add.assoc)
  from Suc.IH [OF A B, of "c(2 \<mapsto> (p, p + 3))"] obtain rest where
    "\<exists>c'. ms inp (Star segmentRegex) (p + 3, c(2 \<mapsto> (p, p + 3))) = (p + 3 + 3 * k, c') # rest
       \<and> c' 1 = (c(2 \<mapsto> (p, p + 3))) 1
       \<and> (c' 2 = None) = (k = 0 \<and> (c(2 \<mapsto> (p, p + 3))) 2 = None)" ..
  then obtain c' where
    all: "ms inp (Star segmentRegex) (p + 3, c(2 \<mapsto> (p, p + 3))) = (p + 3 + 3 * k, c') # rest
       \<and> c' 1 = (c(2 \<mapsto> (p, p + 3))) 1
       \<and> (c' 2 = None) = (k = 0 \<and> (c(2 \<mapsto> (p, p + 3))) 2 = None)" ..
  note r = all [THEN conjunct1] and c1 = all [THEN conjunct2, THEN conjunct1]
    and c2 = all [THEN conjunct2, THEN conjunct2]
  from here have "ms inp (Star segmentRegex) (p, c)
      = ms inp (Star segmentRegex) (p + 3, c(2 \<mapsto> (p, p + 3))) @ [(p, c)]"
    by (subst star_segment_unfold) (simp only: if_True)
  then have "ms inp (Star segmentRegex) (p, c) = (p + 3 * Suc k, c') # (rest @ [(p, c)])"
    using r by (simp add: add.assoc)
  moreover have "c' 1 = c 1"
    using c1 by simp
  moreover have "(c' 2 = None) = (Suc k = 0 \<and> c 2 = None)"
    using c2 by simp
  ultimately have "ms inp (Star segmentRegex) (p, c) = (p + 3 * Suc k, c') # (rest @ [(p, c)])
      \<and> c' 1 = c 1 \<and> ((c' 2 = None) = (Suc k = 0 \<and> c 2 = None))"
    by (intro conjI)
  then show ?case
    by (intro exI)
qed


lemma includePattern_parts:
  "includePattern rel base =
     Seq Bol (Seq (Star WhiteSpace) (Seq (lit (str ''#include''))
       (Seq (Seq WhiteSpace (Star WhiteSpace)) (Seq (OneOf [dquote, 0x3C])
         (Seq (pathRegex rel base) tailRegex)))))"
  by (simp add: includePattern_def pathRegex_def tailRegex_def segmentRegex_def)

lemma dquote_not_space: "dquote \<notin> set whiteSpaces"
  by (simp add: dquote_def whiteSpaces_def)

lemma ms_tail:
  assumes "inp \<noteq> []" and "last inp = dquote"
  shows "ms inp tailRegex (j, c) = (if Suc j = length inp then [(length inp, c)] else [])"
proof (cases "Suc j = length inp")
  case True
  then have "j = length inp - 1"
    by linarith
  then have "inp ! j = dquote"
    using assms by (simp add: last_conv_nth)
  moreover have "ms inp (Star WhiteSpace) (Suc j, c) = [(Suc j, c)]"
    using True by (subst star_ws_unfold) simp
  ultimately show ?thesis
    using True by (simp add: tailRegex_def)
next
  case False
  have "ms inp (Seq (Star WhiteSpace) Eol) (Suc j, c) = []" if "j < length inp"
  proof -
    have "ms inp Eol x = []" if "x \<in> set (ms inp (Star WhiteSpace) (Suc j, c))" for x
    proof -
      obtain t c' where x: "x = (t, c')"
        by (cases x)
      from star_ws_span [OF that [unfolded x]]
      have ws: "\<forall>u. Suc j \<le> u \<and> u < t \<longrightarrow> inp ! u \<in> set whiteSpaces"
        by simp
      have "t \<noteq> length inp"
      proof
        assume t: "t = length inp"
        from \<open>j < length inp\<close> False have "Suc j \<le> length inp - 1" and "length inp - 1 < t"
          using t by linarith+
        with ws have "inp ! (length inp - 1) \<in> set whiteSpaces"
          by blast
        then show False
          using assms dquote_not_space by (simp add: last_conv_nth)
      qed
      then show ?thesis
        by (simp add: x)
    qed
    then show ?thesis
      by (simp add: concat_map_nil)
  qed
  then show ?thesis
    using False by (simp add: tailRegex_def)
qed

lemma includeLine_facts:
  "includeLine h ! 0 = 0x23"
  "includeLine h ! 8 = 0x20"
  "includeLine h ! 9 = dquote"
  "take 8 (includeLine h) = str ''#include''"
  "length (includeLine h) = length h + 11"
  "drop 10 (includeLine h) = h @ [dquote]"
  "last (includeLine h) = dquote"
  "includeLine h \<noteq> []"
  by (simp_all add: includeLine_def str_def)

lemma ms_include_prefix:
  "ms (includeLine h) (includePattern rel base) (0, c) =
     concat (map (ms (includeLine h) tailRegex) (ms (includeLine h) (pathRegex rel base) (10, c)))"
proof -
  let ?inp = "includeLine h"
  have s0: "ms ?inp (Star WhiteSpace) (0, c) = [(0, c)]"
    by (subst star_ws_unfold) (simp add: includeLine_facts whiteSpaces_def)
  have len: "length (str ''#include'') = 8"
    by (simp add: str_def)
  have kw: "ms ?inp (lit (str ''#include'')) (0, c) = [(8, c)]"
    by (simp add: ms_lit len includeLine_facts)
  have s9: "ms ?inp (Star WhiteSpace) (9, c) = [(9, c)]"
    by (subst star_ws_unfold) (simp add: includeLine_facts dquote_not_space)
  have sp: "ms ?inp WhiteSpace (8, c) = [(9, c)]"
    by (simp add: includeLine_facts whiteSpaces_def)
  have q: "ms ?inp (OneOf [dquote, 0x3C]) (9, c) = [(10, c)]"
    by (simp add: includeLine_facts)
  show ?thesis
    unfolding includePattern_parts
    by (simp add: s0 kw s9 sp q del: ms.simps(3-6))
qed


lemma segmentAt_append: "segmentAt (pre @ xs) (length pre + i) = segmentAt xs i"
  by (simp add: segmentAt_def nth_append add.assoc)

lemma length_concat_segments:
  "list_all validSegment segs \<Longrightarrow> length (concat segs) = 3 * length segs"
  by (induction segs) (simp_all add: validSegment_def)

lemma segmentAt_segments:
  "list_all validSegment segs \<Longrightarrow> t < length segs \<Longrightarrow> segmentAt (concat segs @ rest) (3 * t)"
proof (induction segs arbitrary: t)
  case Nil
  then show ?case by simp
next
  case (Cons s ss)
  from Cons.prems have v: "validSegment s" and vs: "list_all validSegment ss"
    by simp_all
  from v have len: "length s = 3"
    by (simp add: validSegment_def)
  show ?case
  proof (cases t)
    case 0
    from v show ?thesis
      unfolding 0 by (simp add: segmentAt_def validSegment_def nth_append eval_nat_numeral)
  next
    case (Suc t')
    with Cons.prems have "t' < length ss"
      by simp
    from Cons.IH [OF vs this] have "segmentAt (concat ss @ rest) (3 * t')" .
    then have "segmentAt (s @ (concat ss @ rest)) (length s + 3 * t')"
      by (simp only: segmentAt_append)
    then show ?thesis
      by (simp add: Suc len)
  qed
qed

lemma segmentAt_end:
  assumes "list_all validSegment segs" and "slash \<notin> set base"
  shows "\<not> segmentAt (concat segs @ base @ [dquote]) (3 * length segs)"
proof -
  have "\<not> segmentAt (base @ [dquote]) 0"
  proof
    assume "segmentAt (base @ [dquote]) 0"
    then have le: "2 \<le> length base" and sl: "(base @ [dquote]) ! 2 = slash"
      by (simp_all add: segmentAt_def eval_nat_numeral)
    show False
    proof (cases "2 < length base")
      case True
      then have "base ! 2 \<in> set base"
        by simp
      with sl True assms(2) show False
        by (simp add: nth_append)
    next
      case False
      with le have "length base = 2"
        by simp
      with sl show False
        by (simp add: nth_append dquote_def slash_def)
    qed
  qed
  then have "\<not> segmentAt (concat segs @ (base @ [dquote])) (length (concat segs) + 0)"
    by (simp only: segmentAt_append simp_thms)
  then show ?thesis
    by (simp add: length_concat_segments [OF assms(1)])
qed

lemma includeLine_split:
  "includeLine h = (str ''#include '' @ [dquote]) @ h @ [dquote]"
  "length (str ''#include '' @ [dquote]) = 10"
  by (simp_all add: includeLine_def str_def)

lemma ms_segments_base:
  assumes valid: "list_all validSegment segs" and noslash: "slash \<notin> set base"
  shows "\<exists>c' rest. ms (includeLine (concat segs @ base)) (Seq (Star segmentRegex) (lit base)) (10, c)
            = (length (concat segs @ base) + 10, c') # rest
          \<and> c' 1 = c 1 \<and> (c' 2 = None \<longleftrightarrow> segs = [] \<and> c 2 = None)"
proof -
  let ?h = "concat segs @ base"
  let ?inp = "includeLine ?h"
  let ?pre = "str ''#include '' @ [dquote]"
  have inp: "?inp = ?pre @ (concat segs @ base @ [dquote])"
    by (simp add: includeLine_split(1))
  have A: "\<forall>t<length segs. segmentAt ?inp (10 + 3 * t)"
  proof (intro allI impI)
    fix t assume "t < length segs"
    from segmentAt_segments [OF valid this]
    have "segmentAt (concat segs @ base @ [dquote]) (3 * t)" .
    then have "segmentAt (?pre @ (concat segs @ base @ [dquote])) (length ?pre + 3 * t)"
      by (simp only: segmentAt_append)
    then show "segmentAt ?inp (10 + 3 * t)"
      by (simp only: inp includeLine_split(2))
  qed
  have B: "\<not> segmentAt ?inp (10 + 3 * length segs)"
  proof -
    from segmentAt_end [OF valid noslash]
    have "\<not> segmentAt (?pre @ (concat segs @ base @ [dquote])) (length ?pre + 3 * length segs)"
      by (simp only: segmentAt_append simp_thms)
    then show ?thesis
      by (simp only: inp includeLine_split(2) simp_thms)
  qed
  from star_segment_head [OF A B, of c] obtain rest where
    "\<exists>c'. ms ?inp (Star segmentRegex) (10, c) = (10 + 3 * length segs, c') # rest
       \<and> c' 1 = c 1 \<and> (c' 2 = None) = (length segs = 0 \<and> c 2 = None)" ..
  then obtain c' where
    all: "ms ?inp (Star segmentRegex) (10, c) = (10 + 3 * length segs, c') # rest
       \<and> c' 1 = c 1 \<and> (c' 2 = None) = (length segs = 0 \<and> c 2 = None)" ..
  have "drop (10 + 3 * length segs) ?inp = base @ [dquote]"
  proof -
    have "length (str ''#include '') = 9"
      by (simp add: str_def)
    then have "length (?pre @ concat segs) = 10 + 3 * length segs"
      by (simp add: length_concat_segments [OF valid])
    moreover have "?inp = (?pre @ concat segs) @ (base @ [dquote])"
      by (simp add: inp)
    ultimately show ?thesis
      by (metis append_eq_conv_conj)
  qed
  then have "ms ?inp (lit base) (10 + 3 * length segs, c') = [(10 + 3 * length segs + length base, c')]"
    by (simp add: ms_lit)
  then have "ms ?inp (Seq (Star segmentRegex) (lit base)) (10, c)
      = (10 + 3 * length segs + length base, c')
        # concat (map (ms ?inp (lit base)) rest)"
    by (simp add: all [THEN conjunct1])
  moreover have "10 + 3 * length segs + length base = length ?h + 10"
    by (simp add: length_concat_segments [OF valid])
  ultimately have "ms ?inp (Seq (Star segmentRegex) (lit base)) (10, c)
      = (length ?h + 10, c') # concat (map (ms ?inp (lit base)) rest)
      \<and> c' 1 = c 1 \<and> (c' 2 = None \<longleftrightarrow> segs = [] \<and> c 2 = None)"
    using all by simp
  then show ?thesis
    by (intro exI)
qed


lemma ms_includeLine_head:
  assumes valid: "list_all validSegment segs" and noslash: "slash \<notin> set base"
    and h: "h = concat segs @ base"
  shows "\<exists>cf rest. ms (includeLine h) (includePattern rel base) (0, c) = (length h + 11, cf) # rest
           \<and> cf 1 = Some (10, length h + 10)
           \<and> (cf 2 = None \<longleftrightarrow> c 2 = None \<and> (segs = [] \<or> rel = h))"
proof -
  let ?inp = "includeLine h"
  let ?upd = "\<lambda>(j, c'). (j, c'(1 \<mapsto> (10, j)))"
  have tail: "ms ?inp tailRegex (j, d) = (if j = length h + 10 then [(length h + 11, d)] else [])"
    for j d
    using ms_tail [of ?inp j d] by (auto simp: includeLine_facts)
  from ms_segments_base [OF valid noslash, of c] obtain c' where
    "\<exists>rest. ms ?inp (Seq (Star segmentRegex) (lit base)) (10, c) = (length h + 10, c') # rest
       \<and> c' 1 = c 1 \<and> (c' 2 = None \<longleftrightarrow> segs = [] \<and> c 2 = None)"
    unfolding h ..
  then obtain rest where
    all: "ms ?inp (Seq (Star segmentRegex) (lit base)) (10, c) = (length h + 10, c') # rest
       \<and> c' 1 = c 1 \<and> (c' 2 = None \<longleftrightarrow> segs = [] \<and> c 2 = None)" ..
  note seg = all [THEN conjunct1] and c2 = all [THEN conjunct2, THEN conjunct2]
  have relm: "ms ?inp (lit r) (10, c)
      = (if take (length r) (h @ [dquote]) = r then [(10 + length r, c)] else [])" for r
    by (simp add: ms_lit includeLine_facts)
  have path: "ms ?inp (pathRegex rel base) (10, c)
      = map ?upd (ms ?inp (lit rel) (10, c)) @ map ?upd ((length h + 10, c') # rest)"
    unfolding pathRegex_def by (simp add: seg del: ms.simps(8))
  have whole: "ms ?inp (includePattern rel base) (0, c)
      = concat (map (ms ?inp tailRegex) (map ?upd (ms ?inp (lit rel) (10, c))))
        @ (length h + 11, c'(1 \<mapsto> (10, length h + 10)))
          # concat (map (ms ?inp tailRegex) (map ?upd rest))"
    unfolding ms_include_prefix path by (simp add: tail)
  show ?thesis
  proof (cases "rel = h")
    case True
    then have "ms ?inp (lit rel) (10, c) = [(length h + 10, c)]"
      by (simp add: relm)
    then have "ms ?inp (includePattern rel base) (0, c)
      = (length h + 11, c(1 \<mapsto> (10, length h + 10)))
        # ((length h + 11, c'(1 \<mapsto> (10, length h + 10)))
          # concat (map (ms ?inp tailRegex) (map ?upd rest)))"
      unfolding whole by (simp add: tail)
    moreover have "(c(1 \<mapsto> (10, length h + 10))) 1 = Some (10, length h + 10)"
      by simp
    moreover have "((c(1 \<mapsto> (10, length h + 10))) 2 = None) = (c 2 = None \<and> (segs = [] \<or> rel = h))"
      using True by simp
    ultimately have "ms ?inp (includePattern rel base) (0, c)
      = (length h + 11, c(1 \<mapsto> (10, length h + 10)))
        # ((length h + 11, c'(1 \<mapsto> (10, length h + 10)))
          # concat (map (ms ?inp tailRegex) (map ?upd rest)))
      \<and> (c(1 \<mapsto> (10, length h + 10))) 1 = Some (10, length h + 10)
      \<and> (((c(1 \<mapsto> (10, length h + 10))) 2 = None) = (c 2 = None \<and> (segs = [] \<or> rel = h)))"
      by (intro conjI)
    then show ?thesis
      by (intro exI)
  next
    case False
    have "concat (map (ms ?inp tailRegex) (map ?upd (ms ?inp (lit rel) (10, c)))) = []"
    proof (cases "take (length rel) (h @ [dquote]) = rel")
      case True
      have "length rel \<noteq> length h"
      proof
        assume "length rel = length h"
        with True have "rel = h"
          by simp
        with False show False ..
      qed
      then show ?thesis
        by (simp add: relm True tail)
    next
      case False
      then show ?thesis
        by (simp add: relm)
    qed
    then have "ms ?inp (includePattern rel base) (0, c)
      = (length h + 11, c'(1 \<mapsto> (10, length h + 10)))
        # concat (map (ms ?inp tailRegex) (map ?upd rest))"
      unfolding whole by simp
    moreover have "(c'(1 \<mapsto> (10, length h + 10))) 1 = Some (10, length h + 10)"
      by simp
    moreover have "((c'(1 \<mapsto> (10, length h + 10))) 2 = None) = (c 2 = None \<and> (segs = [] \<or> rel = h))"
      using False c2 by auto
    ultimately have "ms ?inp (includePattern rel base) (0, c)
      = (length h + 11, c'(1 \<mapsto> (10, length h + 10)))
        # concat (map (ms ?inp tailRegex) (map ?upd rest))
      \<and> (c'(1 \<mapsto> (10, length h + 10))) 1 = Some (10, length h + 10)
      \<and> (((c'(1 \<mapsto> (10, length h + 10))) 2 = None) = (c 2 = None \<and> (segs = [] \<or> rel = h)))"
      by (intro conjI)
    then show ?thesis
      by (intro exI)
  qed
qed

lemma exec_includeLine:
  assumes valid: "list_all validSegment segs" and noslash: "slash \<notin> set base"
    and h: "h = concat segs @ base"
  shows "\<exists>m. exec (includePattern rel base) (includeLine h) = Some m
           \<and> m 1 = Some h \<and> (m 2 = None \<longleftrightarrow> segs = [] \<or> rel = h)"
proof -
  let ?inp = "includeLine h"
  from ms_includeLine_head [OF assms, of rel "\<lambda>n. None"] obtain cf where
    "\<exists>rest. ms ?inp (includePattern rel base) (0, \<lambda>n. None) = (length h + 11, cf) # rest
           \<and> cf 1 = Some (10, length h + 10)
           \<and> (cf 2 = None \<longleftrightarrow> (None :: (nat \<times> nat) option) = None \<and> (segs = [] \<or> rel = h))" ..
  then obtain rest where
    all: "ms ?inp (includePattern rel base) (0, \<lambda>n. None) = (length h + 11, cf) # rest
           \<and> cf 1 = Some (10, length h + 10)
           \<and> (cf 2 = None \<longleftrightarrow> (None :: (nat \<times> nat) option) = None \<and> (segs = [] \<or> rel = h))" ..
  note head = all [THEN conjunct1] and cf1 = all [THEN conjunct2, THEN conjunct1]
    and cf2 = all [THEN conjunct2, THEN conjunct2]
  define m where "m = (\<lambda>n. map_option (\<lambda>(a, b). take (b - a) (drop a ?inp))
      ((cf(0 \<mapsto> (0, length h + 11))) n))"
  have upt: "[0..<Suc (length ?inp)] = 0 # [1..<Suc (length ?inp)]"
    by (simp add: upt_rec)
  have "exec (includePattern rel base) ?inp = Some m"
    unfolding exec_def upt m_def by (simp add: head)
  moreover have "m 1 = Some h"
  proof -
    have "cf (Suc 0) = Some (10, length h + 10)"
      using cf1 by simp
    then show ?thesis
      by (simp add: m_def includeLine_facts)
  qed
  moreover have "(m 2 = None) = (segs = [] \<or> rel = h)"
    using cf2 by (simp add: m_def)
  ultimately have "exec (includePattern rel base) ?inp = Some m
      \<and> m 1 = Some h \<and> ((m 2 = None) = (segs = [] \<or> rel = h))"
    by (intro conjI)
  then show ?thesis
    by (intro exI)
qed


lemma ms_Seq_member:
  "z \<in> set (ms inp (Seq a b) s) \<longleftrightarrow> (\<exists>y\<in>set (ms inp a s). z \<in> set (ms inp b y))"
  by (cases s) auto

lemma ms_no_groups:
  "groups r = [] \<Longrightarrow> z \<in> set (ms inp r s) \<Longrightarrow> snd z = snd s"
proof (induction inp r s arbitrary: z rule: ms.induct)
  case (8 inp a b i c)
  from "8.prems"(1) have ga: "groups a = []" and gb: "groups b = []"
    by simp_all
  from "8.prems"(2) obtain y where y: "y \<in> set (ms inp a (i, c))" and z: "z \<in> set (ms inp b y)"
    by auto
  from "8.IH"(1) [OF ga y] have "snd y = c"
    by simp
  moreover from "8.IH"(2) [OF y gb z] have "snd z = snd y" .
  ultimately show ?case
    by simp
next
  case (9 inp a b i c)
  then show ?case
    by (cases z) auto
next
  case (10 inp r i c)
  from "10.prems"(1) have gr: "groups r = []"
    by simp
  from "10.prems"(2) have "z = (i, c)
      \<or> (\<exists>j c'. (j, c') \<in> set (ms inp r (i, clear (groups r) c)) \<and> i < j \<and> j \<le> length inp
            \<and> z \<in> set (ms inp (Star r) (j, c')))"
    by (subst (asm) ms.simps(10)) (auto split: if_splits)
  then show ?case
  proof
    assume "z = (i, c)"
    then show ?thesis by simp
  next
    assume "\<exists>j c'. (j, c') \<in> set (ms inp r (i, clear (groups r) c)) \<and> i < j \<and> j \<le> length inp
            \<and> z \<in> set (ms inp (Star r) (j, c'))"
    then obtain j c' where y: "(j, c') \<in> set (ms inp r (i, clear (groups r) c))"
      and guard: "i < j \<and> j \<le> length inp" and z: "z \<in> set (ms inp (Star r) (j, c'))"
      by blast
    from "10.IH"(1) [OF gr y] have "c' = c"
      by (simp add: gr)
    moreover from "10.IH"(2) [OF y refl guard "10.prems"(1) z] have "snd z = c'"
      by simp
    ultimately show ?thesis
      by simp
  qed
qed (auto split: if_splits)

lemma groups_lit [simp]: "groups (lit s) = []"
  by (induction s) (simp_all add: lit_def)

lemma ms_path_member:
  assumes "(q, c1) \<in> set (ms inp (pathRegex rel base) (p, c))"
  shows "c1 1 = Some (p, q) \<and> c1 2 \<noteq> None
         \<or> c1 1 = Some (p, q) \<and> c1 2 = c 2
              \<and> (take (q - p) (drop p inp) = rel \<or> take (q - p) (drop p inp) = base)"
proof -
  from assms obtain c2 where c1: "c1 = c2(1 \<mapsto> (p, q))"
    and alt: "(q, c2) \<in> set (ms inp (lit rel) (p, c))
        \<or> (q, c2) \<in> set (ms inp (Seq (Star segmentRegex) (lit base)) (p, c))"
    unfolding pathRegex_def by (auto simp del: ms.simps(8))
  from alt show ?thesis
  proof
    assume "(q, c2) \<in> set (ms inp (lit rel) (p, c))"
    then have "q = p + length rel" and "c2 = c" and "take (length rel) (drop p inp) = rel"
      by (simp_all add: ms_lit split: if_splits)
    then show ?thesis
      by (simp add: c1)
  next
    assume "(q, c2) \<in> set (ms inp (Seq (Star segmentRegex) (lit base)) (p, c))"
    then obtain y where y: "y \<in> set (ms inp (Star segmentRegex) (p, c))"
      and z: "(q, c2) \<in> set (ms inp (lit base) y)"
      unfolding ms_Seq_member by blast
    obtain t c3 where yt: "y = (t, c3)"
      by (cases y)
    from z have q: "q = t + length base" and c2: "c2 = c3"
      and b: "take (length base) (drop t inp) = base"
      by (simp_all add: yt ms_lit split: if_splits)
    from star_segment_member [OF y [unfolded yt]]
    show ?thesis
    proof
      assume "t = p \<and> c3 = c"
      then show ?thesis
        using q c2 b by (simp add: c1)
    next
      assume "p < t \<and> c3 2 \<noteq> None \<and> c3 1 = c 1"
      then show ?thesis
        using c2 by (simp add: c1)
    qed
  qed
qed


lemma ms_Seq_step:
  assumes "z \<in> set (ms inp (Seq a b) (i, c))" and "groups a = []"
  shows "\<exists>i'. z \<in> set (ms inp b (i', c))"
proof -
  from assms(1) obtain y where y: "y \<in> set (ms inp a (i, c))" and z: "z \<in> set (ms inp b y)"
    unfolding ms_Seq_member by blast
  from ms_no_groups [OF assms(2) y] have "y = (fst y, c)"
    by (cases y) simp
  with z have "z \<in> set (ms inp b (fst y, c))"
    by simp
  then show ?thesis ..
qed

lemma ms_includePattern_member:
  assumes mem: "(j, cf) \<in> set (ms inp (includePattern rel base) (i, c))" and c: "c 2 = None"
  shows "\<exists>p q. cf 1 = Some (p, q)
           \<and> (cf 2 = None \<longrightarrow>
                take (q - p) (drop p inp) = rel \<or> take (q - p) (drop p inp) = base)"
proof -
  have g1: "groups Bol = []" and g2: "groups (Star WhiteSpace) = []"
    and g3: "groups (lit (str ''#include'')) = []"
    and g4: "groups (Seq WhiteSpace (Star WhiteSpace)) = []"
    and g5: "groups (OneOf [dquote, 0x3C]) = []"
    and g6: "groups tailRegex = []"
    by (simp_all add: tailRegex_def)
  from ms_Seq_step [OF mem [unfolded includePattern_parts] g1] obtain i1 where
    "(j, cf) \<in> set (ms inp (Seq (Star WhiteSpace) (Seq (lit (str ''#include''))
       (Seq (Seq WhiteSpace (Star WhiteSpace)) (Seq (OneOf [dquote, 0x3C])
         (Seq (pathRegex rel base) tailRegex))))) (i1, c))" ..
  from ms_Seq_step [OF this g2] obtain i2 where
    "(j, cf) \<in> set (ms inp (Seq (lit (str ''#include''))
       (Seq (Seq WhiteSpace (Star WhiteSpace)) (Seq (OneOf [dquote, 0x3C])
         (Seq (pathRegex rel base) tailRegex)))) (i2, c))" ..
  from ms_Seq_step [OF this g3] obtain i3 where
    "(j, cf) \<in> set (ms inp
       (Seq (Seq WhiteSpace (Star WhiteSpace)) (Seq (OneOf [dquote, 0x3C])
         (Seq (pathRegex rel base) tailRegex))) (i3, c))" ..
  from ms_Seq_step [OF this g4] obtain i4 where
    "(j, cf) \<in> set (ms inp (Seq (OneOf [dquote, 0x3C])
         (Seq (pathRegex rel base) tailRegex)) (i4, c))" ..
  from ms_Seq_step [OF this g5] obtain p where
    "(j, cf) \<in> set (ms inp (Seq (pathRegex rel base) tailRegex) (p, c))" ..
  then obtain y6 where y6: "y6 \<in> set (ms inp (pathRegex rel base) (p, c))"
    and t: "(j, cf) \<in> set (ms inp tailRegex y6)"
    unfolding ms_Seq_member by blast
  from ms_no_groups [OF g6 t] have "y6 = (fst y6, cf)"
    by (cases y6) simp
  with y6 have "(fst y6, cf) \<in> set (ms inp (pathRegex rel base) (p, c))"
    by simp
  from ms_path_member [OF this] c
  have "cf 1 = Some (p, fst y6)
      \<and> (cf 2 = None \<longrightarrow>
            take (fst y6 - p) (drop p inp) = rel \<or> take (fst y6 - p) (drop p inp) = base)"
    by auto
  then show ?thesis
    by (intro exI)
qed

lemma exec_includePattern:
  assumes "exec (includePattern rel base) inp = Some m"
  shows "\<exists>inc. m 1 = Some inc \<and> (m 2 = None \<longrightarrow> inc = rel \<or> inc = base)"
proof -
  let ?L = "concat (map (\<lambda>i. map (Pair i) (ms inp (includePattern rel base) (i, \<lambda>n. None)))
      [0..<Suc (length inp)])"
  from assms obtain i j cf rest where L: "?L = (i, j, cf) # rest"
    and m: "m = (\<lambda>n. map_option (\<lambda>(a, b). take (b - a) (drop a inp)) ((cf(0 \<mapsto> (i, j))) n))"
    unfolding exec_def by (auto split: list.splits)
  have "(i, j, cf) \<in> set ?L"
    unfolding L by simp
  then have "(j, cf) \<in> set (ms inp (includePattern rel base) (i, \<lambda>n. None))"
    by auto
  from ms_includePattern_member [OF this] obtain p q where
    "cf 1 = Some (p, q)
     \<and> (cf 2 = None \<longrightarrow> take (q - p) (drop p inp) = rel \<or> take (q - p) (drop p inp) = base)"
    by auto
  then have "m 1 = Some (take (q - p) (drop p inp))
     \<and> (m 2 = None \<longrightarrow> take (q - p) (drop p inp) = rel \<or> take (q - p) (drop p inp) = base)"
    unfolding m by simp
  then show ?thesis
    by (intro exI)
qed

subsection \<open>The result of a search\<close>

text \<open>
  C1, as stated, fails: a stream does not always emit a value. When the first message is
  an error message the stream fails without a value and without completing.
\<close>

theorem findIncludingSourceFile_error_only_counterexample:
  "findIncludingSourceFile (str ''/'') (str ''/p/foo.h'') (str ''/p'')
     ([ErrorMsg (str ''EIO'')], Pending)
   = ([], Failed (Error (str ''EIO'')))"
  by (simp add: findIncludingSourceFile_def onMessage_def take_obs_def)

text \<open>
  C1, amended: the returned stream never emits more than one value. Messages that produce
  nothing (stderr lines and stdout lines whose processed result is null) are skipped; if
  the first message after them is a stdout line whose processed result is a file name, the
  stream emits exactly Found of that file and completes, whatever follows; if it is the
  exit message, the stream emits exactly one NotFound and completes.
\<close>

theorem findIncludingSourceFile_first_result:
  assumes "\<forall>m\<in>set pre. onMessage headerFile (includeRegex cwd headerFile projectRoot) m = Inr []"
  shows "length (fst (findIncludingSourceFile cwd headerFile projectRoot (messages, e))) \<le> 1
    \<and> (processGrepResult d headerFile (includeRegex cwd headerFile projectRoot) = Inr (Some filename)
         \<longrightarrow> findIncludingSourceFile cwd headerFile projectRoot (pre @ Stdout d # rest, e)
             = ([Some filename], Completed))
    \<and> findIncludingSourceFile cwd headerFile projectRoot (pre @ Exit code # rest', e)
        = ([None], Completed)"
proof -
  let ?f = "onMessage headerFile (includeRegex cwd headerFile projectRoot)"
  have "length (fst (findIncludingSourceFile cwd headerFile projectRoot (messages, e))) \<le> 1"
    unfolding findIncludingSourceFile_def by (rule take_obs_length)
  moreover have "take_obs 1 (flatMap ?f (pre @ Stdout d # rest, e)) = ([Some filename], Completed)"
    if "processGrepResult d headerFile (includeRegex cwd headerFile projectRoot) = Inr (Some filename)"
  proof (rule flatMap_first [OF assms])
    show "?f (Stdout d) = Inr [Some filename]"
      using that by (simp add: onMessage_def)
  qed
  moreover have "take_obs 1 (flatMap ?f (pre @ Exit code # rest', e)) = ([None], Completed)"
  proof (rule flatMap_first [OF assms])
    show "?f (Exit code) = Inr [None]"
      by (simp add: onMessage_def)
  qed
  ultimately show ?thesis
    by (simp add: findIncludingSourceFile_def)
qed

theorem findIncludingSourceFile_first_result_witness:
  "onMessage (str ''/a/foo.h'') (includeRegex (str ''/'') (str ''/a/foo.h'') (str ''/a''))
       (Stderr (str ''grep: warning'')) = Inr []
   \<and> onMessage (str ''/a/foo.h'') (includeRegex (str ''/'') (str ''/a/foo.h'') (str ''/a''))
       (Stdout (str ''no separator'')) = Inr []
   \<and> processGrepResult (grepLine (str ''/a/x.c'') (includeLine (str ''foo.h''))) (str ''/a/foo.h'')
        (includeRegex (str ''/'') (str ''/a/foo.h'') (str ''/a'')) = Inr (Some (str ''/a/x.c''))
   \<and> findIncludingSourceFile (str ''/'') (str ''/a/foo.h'') (str ''/a'')
        ([Stderr (str ''grep: warning''), Stdout (str ''no separator'')]
           @ Stdout (grepLine (str ''/a/x.c'') (includeLine (str ''foo.h''))) # [Exit 0], Completed)
       = ([Some (str ''/a/x.c'')], Completed)
   \<and> findIncludingSourceFile (str ''/'') (str ''/a/foo.h'') (str ''/a'')
        ([Stderr (str ''grep: warning''), Stdout (str ''no separator'')] @ Exit 1 # [], Completed)
       = ([None], Completed)"
proof -
  have stderr: "onMessage (str ''/a/foo.h'') (includeRegex (str ''/'') (str ''/a/foo.h'') (str ''/a''))
       (Stderr (str ''grep: warning'')) = Inr []"
    by (simp add: onMessage_def)
  have garbage: "onMessage (str ''/a/foo.h'') (includeRegex (str ''/'') (str ''/a/foo.h'') (str ''/a''))
       (Stdout (str ''no separator'')) = Inr []"
    by code_simp
  have skipped: "\<forall>m\<in>set [Stderr (str ''grep: warning''), Stdout (str ''no separator'')].
       onMessage (str ''/a/foo.h'') (includeRegex (str ''/'') (str ''/a/foo.h'') (str ''/a'')) m
       = Inr []"
    using stderr garbage by simp
  have found: "processGrepResult (grepLine (str ''/a/x.c'') (includeLine (str ''foo.h'')))
        (str ''/a/foo.h'') (includeRegex (str ''/'') (str ''/a/foo.h'') (str ''/a''))
       = Inr (Some (str ''/a/x.c''))"
    by code_simp
  show ?thesis
    using findIncludingSourceFile_first_result [OF skipped,
        where d = "grepLine (str ''/a/x.c'') (includeLine (str ''foo.h''))"
          and filename = "str ''/a/x.c''" and rest = "[Exit 0]" and e = Completed and code = 1
          and messages = "[]" and rest' = "[]"]
      stderr garbage found
    by simp
qed

text \<open>
  C3, as stated, fails for a nonzero exit code: the exit message is answered with
  NotFound whatever its code, and the stream completes without an error.
\<close>

theorem findIncludingSourceFile_nonzero_exit_counterexample:
  "findIncludingSourceFile (str ''/'') (str ''/p/foo.h'') (str ''/p'') ([Exit 2], Completed)
   = ([None], Completed)"
  by (simp add: findIncludingSourceFile_def onMessage_def take_obs_def)

text \<open>
  C3, amended: if an error message arrives before any stdout line with a surviving match
  and before the exit message, the stream fails with that error and emits no search
  result, and if the underlying observable itself fails after messages that produce
  nothing, the stream fails with the same error and emits no search result.
\<close>

theorem findIncludingSourceFile_failure:
  assumes "\<forall>m\<in>set pre. onMessage headerFile (includeRegex cwd headerFile projectRoot) m = Inr []"
  shows "findIncludingSourceFile cwd headerFile projectRoot (pre @ ErrorMsg err # rest, e)
           = ([], Failed (Error err))
    \<and> findIncludingSourceFile cwd headerFile projectRoot (pre, Failed err') = ([], Failed err')"
proof -
  let ?f = "onMessage headerFile (includeRegex cwd headerFile projectRoot)"
  have "take_obs 1 (flatMap ?f (pre @ ErrorMsg err # rest, e)) = ([], Failed (Error err))"
  proof (rule flatMap_throw [OF assms])
    show "?f (ErrorMsg err) = Inl (Error err)"
      by (simp add: onMessage_def)
  qed
  moreover have "take_obs 1 (flatMap ?f (pre, Failed err')) = ([], Failed err')"
    by (rule flatMap_all_skipped [OF assms])
  ultimately show ?thesis
    by (simp add: findIncludingSourceFile_def)
qed

theorem findIncludingSourceFile_failure_witness:
  "onMessage (str ''/a/foo.h'') (includeRegex (str ''/'') (str ''/a/foo.h'') (str ''/a''))
       (Stderr (str ''grep: warning'')) = Inr []
   \<and> onMessage (str ''/a/foo.h'') (includeRegex (str ''/'') (str ''/a/foo.h'') (str ''/a''))
       (Stdout (str ''no separator'')) = Inr []
   \<and> findIncludingSourceFile (str ''/'') (str ''/a/foo.h'') (str ''/a'')
        ([Stderr (str ''grep: warning''), Stdout (str ''no separator'')]
           @ ErrorMsg (str ''EIO'') # [Exit 2], Completed)
       = ([], Failed (Error (str ''EIO'')))
   \<and> findIncludingSourceFile (str ''/'') (str ''/a/foo.h'') (str ''/a'')
        ([Stderr (str ''grep: warning''), Stdout (str ''no separator'')], Failed TypeError)
       = ([], Failed TypeError)"
proof -
  have stderr: "onMessage (str ''/a/foo.h'') (includeRegex (str ''/'') (str ''/a/foo.h'') (str ''/a''))
       (Stderr (str ''grep: warning'')) = Inr []"
    by (simp add: onMessage_def)
  have garbage: "onMessage (str ''/a/foo.h'') (includeRegex (str ''/'') (str ''/a/foo.h'') (str ''/a''))
       (Stdout (str ''no separator'')) = Inr []"
    by code_simp
  have skipped: "\<forall>m\<in>set [Stderr (str ''grep: warning''), Stdout (str ''no separator'')].
       onMessage (str ''/a/foo.h'') (includeRegex (str ''/'') (str ''/a/foo.h'') (str ''/a'')) m
       = Inr []"
    using stderr garbage by simp
  show ?thesis
    using findIncludingSourceFile_failure [OF skipped,
        where err = "str ''EIO''" and rest = "[Exit 2]" and e = Completed and err' = TypeError]
      stderr garbage
    by simp
qed

text \<open>
  C8: for a stdout line without a null byte \<open>processGrepResult\<close> returns null, and the
  search goes on as if the line had not been there, so a match on a later line is still
  emitted.
\<close>

theorem line_without_separator_skipped:
  assumes "0 \<notin> set line"
  shows "processGrepResult line headerFile regex = Inr None
    \<and> findIncludingSourceFile cwd headerFile projectRoot (pre @ Stdout line # rest, e)
        = findIncludingSourceFile cwd headerFile projectRoot (pre @ rest, e)"
proof -
  have "onMessage headerFile (includeRegex cwd headerFile projectRoot) (Stdout line) = Inr []"
    by (simp add: onMessage_def processGrepResult_no_separator [OF assms])
  then show ?thesis
    by (simp add: findIncludingSourceFile_def flatMap_remove processGrepResult_no_separator [OF assms])
qed

theorem line_without_separator_skipped_witness:
  "0 \<notin> set (str ''Binary file matches'')
   \<and> processGrepResult (str ''Binary file matches'') (str ''/a/foo.h'')
        (includeRegex (str ''/'') (str ''/a/foo.h'') (str ''/a'')) = Inr None
   \<and> findIncludingSourceFile (str ''/'') (str ''/a/foo.h'') (str ''/a'')
        ([] @ Stdout (str ''Binary file matches'')
            # [Stdout (grepLine (str ''/a/x.c'') (includeLine (str ''foo.h''))), Exit 0], Completed)
       = ([Some (str ''/a/x.c'')], Completed)"
proof -
  have nul: "0 \<notin> set (str ''Binary file matches'')"
    by code_simp
  have later: "findIncludingSourceFile (str ''/'') (str ''/a/foo.h'') (str ''/a'')
        ([] @ [Stdout (grepLine (str ''/a/x.c'') (includeLine (str ''foo.h''))), Exit 0], Completed)
       = ([Some (str ''/a/x.c'')], Completed)"
    by code_simp
  show ?thesis
    using line_without_separator_skipped [OF nul,
        where headerFile = "str ''/a/foo.h''"
          and regex = "includeRegex (str ''/'') (str ''/a/foo.h'') (str ''/a'')"
          and cwd = "str ''/''" and projectRoot = "str ''/a''" and pre = "[]"
          and rest = "[Stdout (grepLine (str ''/a/x.c'') (includeLine (str ''foo.h''))), Exit 0]"
          and e = Completed]
      nul later
    by simp
qed







subsection \<open>Include lines that name the header\<close>

lemma basename_no_slash: "slash \<notin> set (path_basename p)"
  by (auto simp: path_basename_def lastPart_def dest: set_takeWhileD)

lemma processGrepResult_includeLine:
  assumes src: "isSourceFile source" and nul: "0 \<notin> set source"
    and valid: "list_all validSegment segs"
    and h: "h = concat segs @ path_basename headerFile"
    and resolved: "path_normalize (path_join (path_dirname source) h) = headerFile"
  shows "processGrepResult (grepLine source (includeLine h)) headerFile
           (includeRegex cwd headerFile projectRoot) = Inr (Some source)"
proof -
  from exec_includeLine [OF valid basename_no_slash h, of "path_relative cwd projectRoot headerFile"]
  obtain m where
    "exec (includeRegex cwd headerFile projectRoot) (includeLine h) = Some m \<and> m 1 = Some h
      \<and> (m 2 = None \<longleftrightarrow> segs = [] \<or> path_relative cwd projectRoot headerFile = h)"
    unfolding includeRegex_def ..
  then show ?thesis
    using src resolved by (simp add: processGrepResult_grepLine [OF nul])
qed

lemma exec_match_checked:
  assumes m': "exec (includeRegex cwd headerFile projectRoot) content = Some m'"
  shows "\<exists>inc. m' 1 = Some inc
           \<and> (inc \<noteq> path_relative cwd projectRoot headerFile \<and> inc \<noteq> path_basename headerFile
                \<longrightarrow> m' 2 \<noteq> None)
           \<and> (0 \<notin> set filename
                \<and> processGrepResult (grepLine filename content) headerFile
                      (includeRegex cwd headerFile projectRoot) = Inr (Some filename)
                \<longrightarrow> inc = path_relative cwd projectRoot headerFile
                    \<or> inc = path_basename headerFile
                    \<or> path_normalize (path_join (path_dirname filename) inc) = headerFile)"
proof -
  let ?rel = "path_relative cwd projectRoot headerFile"
  let ?base = "path_basename headerFile"
  from exec_includePattern [OF m' [unfolded includeRegex_def]] obtain inc where
    "m' 1 = Some inc \<and> (m' 2 = None \<longrightarrow> inc = ?rel \<or> inc = ?base)" ..
  then have inc: "m' 1 = Some inc" and none: "m' 2 = None \<longrightarrow> inc = ?rel \<or> inc = ?base"
    by (rule conjunct1, rule conjunct2)
  have checked: "inc = ?rel \<or> inc = ?base
      \<or> path_normalize (path_join (path_dirname filename) inc) = headerFile"
    if nul: "0 \<notin> set filename"
      and res: "processGrepResult (grepLine filename content) headerFile
                      (includeRegex cwd headerFile projectRoot) = Inr (Some filename)"
  proof (cases "m' 2 = None")
    case True
    with none show ?thesis
      by blast
  next
    case False
    have "processGrepResult (grepLine filename content) headerFile
                      (includeRegex cwd headerFile projectRoot)
        = (if \<not> isSourceFile filename then Inr None
           else if path_normalize (path_join (path_dirname filename) inc) \<noteq> headerFile
             then Inr None else Inr (Some filename))"
      unfolding processGrepResult_grepLine [OF nul] m' using False inc by simp
    with res have "path_normalize (path_join (path_dirname filename) inc) = headerFile"
      by (simp split: if_splits)
    then show ?thesis
      by simp
  qed
  have "m' 1 = Some inc
           \<and> (inc \<noteq> ?rel \<and> inc \<noteq> ?base \<longrightarrow> m' 2 \<noteq> None)
           \<and> (0 \<notin> set filename
                \<and> processGrepResult (grepLine filename content) headerFile
                      (includeRegex cwd headerFile projectRoot) = Inr (Some filename)
                \<longrightarrow> inc = ?rel \<or> inc = ?base
                    \<or> path_normalize (path_join (path_dirname filename) inc) = headerFile)"
  proof (intro conjI impI)
    show "m' 1 = Some inc" by (rule inc)
    show "m' 2 \<noteq> None" if "inc \<noteq> ?rel \<and> inc \<noteq> ?base"
      using that none by auto
    show "inc = ?rel \<or> inc = ?base
                    \<or> path_normalize (path_join (path_dirname filename) inc) = headerFile"
      if "0 \<notin> set filename
                \<and> processGrepResult (grepLine filename content) headerFile
                      (includeRegex cwd headerFile projectRoot) = Inr (Some filename)"
      using checked [OF that [THEN conjunct1] that [THEN conjunct2]] .
  qed
  then show ?thesis
    by (intro exI)
qed


lemma exec_segments_basename:
  assumes valid: "list_all validSegment segs" and ne: "segs \<noteq> []"
  shows "\<exists>m. exec (includeRegex cwd headerFile projectRoot)
                (includeLine (concat segs @ path_basename headerFile)) = Some m
           \<and> m 1 = Some (concat segs @ path_basename headerFile)
           \<and> (m 2 = None \<longleftrightarrow>
                path_relative cwd projectRoot headerFile = concat segs @ path_basename headerFile)"
proof -
  from exec_includeLine [OF valid basename_no_slash [of headerFile] refl,
      where rel = "path_relative cwd projectRoot headerFile"]
  obtain m where all: "exec (includePattern (path_relative cwd projectRoot headerFile)
          (path_basename headerFile)) (includeLine (concat segs @ path_basename headerFile)) = Some m
      \<and> m 1 = Some (concat segs @ path_basename headerFile)
      \<and> ((m 2 = None) = (segs = []
            \<or> path_relative cwd projectRoot headerFile = concat segs @ path_basename headerFile))" ..
  have "(m 2 = None)
      = (path_relative cwd projectRoot headerFile = concat segs @ path_basename headerFile)"
    using all [THEN conjunct2, THEN conjunct2] ne by (simp only: simp_thms)
  with all [THEN conjunct1] all [THEN conjunct2, THEN conjunct1]
  have "exec (includeRegex cwd headerFile projectRoot)
                (includeLine (concat segs @ path_basename headerFile)) = Some m
           \<and> m 1 = Some (concat segs @ path_basename headerFile)
           \<and> ((m 2 = None) =
                (path_relative cwd projectRoot headerFile = concat segs @ path_basename headerFile))"
    unfolding includeRegex_def by (intro conjI)
  then show ?thesis
    by (intro exI)
qed

text \<open>
  C4, as stated, fails: an include that resolves to the header need not have the shape
  the pattern accepts. \<^verbatim>\<open>#include "./foo.h"\<close> in \<^verbatim>\<open>/a/x.c\<close> resolves to
  \<^verbatim>\<open>/a/foo.h\<close>, but the pattern does not match the line, so the search for
  \<^verbatim>\<open>/a/foo.h\<close> ends with NotFound, whether the line is reported or not.
\<close>

theorem dot_slash_include_not_found_counterexample:
  "isSourceFile (str ''/a/x.c'')
   \<and> path_normalize (path_join (path_dirname (str ''/a/x.c'')) (str ''./foo.h'')) = str ''/a/foo.h''
   \<and> captured (exec (includeRegex (str ''/'') (str ''/a/foo.h'') (str ''/a''))
         (includeLine (str ''./foo.h''))) = None
   \<and> findIncludingSourceFile (str ''/'') (str ''/a/foo.h'') (str ''/a'')
         ([Stdout (grepLine (str ''/a/x.c'') (includeLine (str ''./foo.h''))), Exit 0], Completed)
       = ([None], Completed)
   \<and> findIncludingSourceFile (str ''/'') (str ''/a/foo.h'') (str ''/a'') ([Exit 1], Completed)
       = ([None], Completed)"
  by code_simp

text \<open>
  C4, amended: let S be a source file (\<open>isSourceFile\<close>, no null byte in its name) with a
  line \<^verbatim>\<open>#include "H"\<close>, where H is the base name of the header P preceded by zero or
  more three-character segments that end in a slash (such as \<open>../\<close>) and H, joined to
  the directory of S and normalized, is P. If the line is reported and every message
  before it produces nothing, the search for P yields Found(S), for every project root.
\<close>

theorem include_of_header_found:
  assumes "isSourceFile source" and "0 \<notin> set source"
    and "list_all validSegment segs"
    and "h = concat segs @ path_basename headerFile"
    and "path_normalize (path_join (path_dirname source) h) = headerFile"
    and "\<forall>m\<in>set pre. onMessage headerFile (includeRegex cwd headerFile projectRoot) m = Inr []"
  shows "findIncludingSourceFile cwd headerFile projectRoot
           (pre @ Stdout (grepLine source (includeLine h)) # rest, e)
         = ([Some source], Completed)"
proof -
  let ?f = "onMessage headerFile (includeRegex cwd headerFile projectRoot)"
  have "processGrepResult (grepLine source (includeLine h)) headerFile
           (includeRegex cwd headerFile projectRoot) = Inr (Some source)"
    using assms(1-5) by (rule processGrepResult_includeLine)
  then have "?f (Stdout (grepLine source (includeLine h))) = Inr [Some source]"
    by (simp add: onMessage_def)
  with assms(6) have "take_obs 1 (flatMap ?f (pre @ Stdout (grepLine source (includeLine h)) # rest, e))
      = ([Some source], Completed)"
    by (rule flatMap_first)
  then show ?thesis
    by (simp only: findIncludingSourceFile_def)
qed


theorem include_of_header_found_witness:
  "isSourceFile (str ''/a/b/x.c'')
   \<and> 0 \<notin> set (str ''/a/b/x.c'')
   \<and> list_all validSegment [str ''../'']
   \<and> str ''../foo.h'' = concat [str ''../''] @ path_basename (str ''/a/foo.h'')
   \<and> path_normalize (path_join (path_dirname (str ''/a/b/x.c'')) (str ''../foo.h''))
       = str ''/a/foo.h''
   \<and> onMessage (str ''/a/foo.h'') (includeRegex (str ''/'') (str ''/a/foo.h'') (str ''/usr/include''))
         (Stderr (str ''grep: warning'')) = Inr []
   \<and> findIncludingSourceFile (str ''/'') (str ''/a/foo.h'') (str ''/usr/include'')
         ([Stderr (str ''grep: warning'')]
            @ Stdout (grepLine (str ''/a/b/x.c'') (includeLine (str ''../foo.h''))) # [Exit 0],
          Completed)
       = ([Some (str ''/a/b/x.c'')], Completed)"
proof -
  have src: "isSourceFile (str ''/a/b/x.c'')"
    by code_simp
  have nul: "0 \<notin> set (str ''/a/b/x.c'')"
    by code_simp
  have valid: "list_all validSegment [str ''../'']"
    by code_simp
  have h: "str ''../foo.h'' = concat [str ''../''] @ path_basename (str ''/a/foo.h'')"
    by code_simp
  have resolved: "path_normalize (path_join (path_dirname (str ''/a/b/x.c'')) (str ''../foo.h''))
       = str ''/a/foo.h''"
    by code_simp
  have stderr: "onMessage (str ''/a/foo.h'')
         (includeRegex (str ''/'') (str ''/a/foo.h'') (str ''/usr/include''))
         (Stderr (str ''grep: warning'')) = Inr []"
    by (simp add: onMessage_def)
  then have skipped: "\<forall>m\<in>set [Stderr (str ''grep: warning'')].
      onMessage (str ''/a/foo.h'') (includeRegex (str ''/'') (str ''/a/foo.h'') (str ''/usr/include'')) m
      = Inr []"
    by simp
  note found = include_of_header_found [OF src nul valid h resolved skipped,
      where rest = "[Exit 0]" and e = Completed]
  show ?thesis
    using src nul valid h resolved stderr found by (intro conjI)
qed


text \<open>
  C9, as stated, fails when the include text is also the path of the header relative to
  the project root: the left alternative of the pattern wins, capture group 2 stays
  undefined and the file is emitted without the check. With the header
  \<^verbatim>\<open>/p/ab/foo.h\<close> and the project root \<^verbatim>\<open>/p\<close>, the line
  \<^verbatim>\<open>#include "ab/foo.h"\<close> of \<^verbatim>\<open>/p/ab/sub/x.c\<close> is emitted although it resolves to
  \<^verbatim>\<open>/p/ab/sub/ab/foo.h\<close>.
\<close>

theorem root_relative_include_unchecked_counterexample:
  "validSegment (str ''ab/'')
   \<and> str ''ab/foo.h'' = concat [str ''ab/''] @ path_basename (str ''/p/ab/foo.h'')
   \<and> captured (exec (includeRegex (str ''/'') (str ''/p/ab/foo.h'') (str ''/p''))
         (includeLine (str ''ab/foo.h'')))
       = Some (Some (str ''ab/foo.h''), None)
   \<and> processGrepResult (grepLine (str ''/p/ab/sub/x.c'') (includeLine (str ''ab/foo.h'')))
         (str ''/p/ab/foo.h'') (includeRegex (str ''/'') (str ''/p/ab/foo.h'') (str ''/p''))
       = Inr (Some (str ''/p/ab/sub/x.c''))
   \<and> path_normalize (path_join (path_dirname (str ''/p/ab/sub/x.c'')) (str ''ab/foo.h''))
       = str ''/p/ab/sub/ab/foo.h''"
  by code_simp

text \<open>
  C9, amended: the dots of \<open>(../)*\<close> are not escaped, so for every header the pattern
  accepts \<^verbatim>\<open>#include "XB"\<close>, B the base name of the header and X any non-empty
  sequence of three-character segments, each two characters other than line terminators
  and a slash; capture group 1 is the text XB, and capture group 2 is undefined exactly
  when XB is the path of the header relative to the project root. For every match of the
  pattern, group 2 is set unless the captured text is that relative path or the bare base
  name, and a file whose line matched is emitted only if the captured text is that
  relative path, or the bare base name, or resolves from the directory of the file to
  \<open>headerFile\<close>.
\<close>

theorem unescaped_dots_checked:
  "(list_all validSegment segs \<and> segs \<noteq> [] \<longrightarrow>
      (\<exists>m. exec (includeRegex cwd headerFile projectRoot)
                (includeLine (concat segs @ path_basename headerFile)) = Some m
           \<and> m 1 = Some (concat segs @ path_basename headerFile)
           \<and> (m 2 = None \<longleftrightarrow>
                path_relative cwd projectRoot headerFile = concat segs @ path_basename headerFile)))
   \<and> (exec (includeRegex cwd headerFile projectRoot) content = Some m' \<longrightarrow>
        (\<exists>inc. m' 1 = Some inc
           \<and> (inc \<noteq> path_relative cwd projectRoot headerFile \<and> inc \<noteq> path_basename headerFile
                \<longrightarrow> m' 2 \<noteq> None)
           \<and> (0 \<notin> set filename
                \<and> processGrepResult (grepLine filename content) headerFile
                      (includeRegex cwd headerFile projectRoot) = Inr (Some filename)
                \<longrightarrow> inc = path_relative cwd projectRoot headerFile
                    \<or> inc = path_basename headerFile
                    \<or> path_normalize (path_join (path_dirname filename) inc) = headerFile)))"
proof (intro conjI impI)
  assume "list_all validSegment segs \<and> segs \<noteq> []"
  then have "list_all validSegment segs" and "segs \<noteq> []"
    by (rule conjunct1, rule conjunct2)
  then show "\<exists>m. exec (includeRegex cwd headerFile projectRoot)
                (includeLine (concat segs @ path_basename headerFile)) = Some m
           \<and> m 1 = Some (concat segs @ path_basename headerFile)
           \<and> (m 2 = None \<longleftrightarrow>
                path_relative cwd projectRoot headerFile = concat segs @ path_basename headerFile)"
    by (rule exec_segments_basename)
next
  assume "exec (includeRegex cwd headerFile projectRoot) content = Some m'"
  then show "\<exists>inc. m' 1 = Some inc
           \<and> (inc \<noteq> path_relative cwd projectRoot headerFile \<and> inc \<noteq> path_basename headerFile
                \<longrightarrow> m' 2 \<noteq> None)
           \<and> (0 \<notin> set filename
                \<and> processGrepResult (grepLine filename content) headerFile
                      (includeRegex cwd headerFile projectRoot) = Inr (Some filename)
                \<longrightarrow> inc = path_relative cwd projectRoot headerFile
                    \<or> inc = path_basename headerFile
                    \<or> path_normalize (path_join (path_dirname filename) inc) = headerFile)"
    by (rule exec_match_checked)
qed


theorem unescaped_dots_checked_witness:
  "list_all validSegment [str ''ab/''] \<and> [str ''ab/''] \<noteq> []
   \<and> concat [str ''ab/''] @ path_basename (str ''/p/ab/foo.h'') = str ''ab/foo.h''
   \<and> path_relative (str ''/'') (str ''/q'') (str ''/p/ab/foo.h'') = str ''../p/ab/foo.h''
   \<and> captured (exec (includeRegex (str ''/'') (str ''/p/ab/foo.h'') (str ''/q''))
          (includeLine (str ''ab/foo.h'')))
       = Some (Some (str ''ab/foo.h''), Some (str ''ab/''))
   \<and> 0 \<notin> set (str ''/p/z.c'')
   \<and> processGrepResult (grepLine (str ''/p/z.c'') (includeLine (str ''ab/foo.h'')))
         (str ''/p/ab/foo.h'') (includeRegex (str ''/'') (str ''/p/ab/foo.h'') (str ''/q''))
       = Inr (Some (str ''/p/z.c''))
   \<and> path_normalize (path_join (path_dirname (str ''/p/z.c'')) (str ''ab/foo.h''))
       = str ''/p/ab/foo.h''
   \<and> processGrepResult (grepLine (str ''/p/ab/d/z.c'') (includeLine (str ''ab/foo.h'')))
         (str ''/p/ab/foo.h'') (includeRegex (str ''/'') (str ''/p/ab/foo.h'') (str ''/q''))
       = Inr None"
proof -
  let ?re = "includeRegex (str ''/'') (str ''/p/ab/foo.h'') (str ''/q'')"
  have valid: "list_all validSegment [str ''ab/''] \<and> [str ''ab/''] \<noteq> []"
    by code_simp
  have h: "concat [str ''ab/''] @ path_basename (str ''/p/ab/foo.h'') = str ''ab/foo.h''"
    by code_simp
  have rel: "path_relative (str ''/'') (str ''/q'') (str ''/p/ab/foo.h'') = str ''../p/ab/foo.h''"
    by code_simp
  have cap: "captured (exec ?re (includeLine (str ''ab/foo.h'')))
       = Some (Some (str ''ab/foo.h''), Some (str ''ab/''))"
    by code_simp
  have nul: "0 \<notin> set (str ''/p/z.c'')"
    by code_simp
  have emitted: "processGrepResult (grepLine (str ''/p/z.c'') (includeLine (str ''ab/foo.h'')))
         (str ''/p/ab/foo.h'') ?re = Inr (Some (str ''/p/z.c''))"
    by code_simp
  have resolved: "path_normalize (path_join (path_dirname (str ''/p/z.c'')) (str ''ab/foo.h''))
       = str ''/p/ab/foo.h''"
    by code_simp
  have rejected: "processGrepResult (grepLine (str ''/p/ab/d/z.c'') (includeLine (str ''ab/foo.h'')))
         (str ''/p/ab/foo.h'') ?re = Inr None"
    by code_simp
  from cap obtain m' where m': "exec ?re (includeLine (str ''ab/foo.h'')) = Some m'"
    by (cases "exec ?re (includeLine (str ''ab/foo.h''))") (simp_all add: captured_def)
  note claim = unescaped_dots_checked [where segs = "[str ''ab/'']" and cwd = "str ''/''"
      and headerFile = "str ''/p/ab/foo.h''" and projectRoot = "str ''/q''"
      and content = "includeLine (str ''ab/foo.h'')" and m' = m' and filename = "str ''/p/z.c''"]
  note accepted = claim [THEN conjunct1, THEN mp, OF valid]
  note checked = claim [THEN conjunct2, THEN mp, OF m']
  show ?thesis
    using valid [THEN conjunct1] valid [THEN conjunct2] h rel cap nul emitted resolved rejected
      accepted checked
    by (intro conjI)
qed


end
